theory Spec2Isabelle
  imports Complex_Main "HOL-Library.Sublist"
begin

section \<open>One-to-many sync tool: the copy engine of \<open>ui_copy_tool.py\<close>\<close>

text \<open>
  The development embeds the engine functions of \<open>ui_copy_tool.py\<close>
  (\<open>files_are_identical\<close>, \<open>count_total_files\<close>, \<open>copy_recursively\<close>,
  \<open>ensure_path_mapped\<close> and the loop of \<open>CopyApp.start_copy\<close>) and states the
  properties of the specification over them. The window system, the JSON configuration
  files and the log formatting are not modelled; log records and dialogs appear as
  events of a trace. The source tree lies apart from the destinations and does not
  change during a run; symbolic links are left out; the dialogs and the progress
  callback return without raising.
\<close>

subsection \<open>Strings and the extension filter\<close>

text \<open>
  A file name is the list of its characters. \<open>str.lower\<close> belongs to the language's
  library and is not computed here: the functions that test a name take it as the
  parameter \<open>str_lower\<close>, and what is proved of them holds for every such function.
\<close>

text \<open>\<open>s.endswith(t)\<close>: \<open>t\<close> is no longer than \<open>s\<close> and the last \<open>len(t)\<close> characters
  of \<open>s\<close> are \<open>t\<close>.\<close>

definition endswith :: "string \<Rightarrow> string \<Rightarrow> bool" where
  "endswith s t = (length t \<le> length s \<and> drop (length s - length t) s = t)"

text \<open>
  The test at the head of the file loop of \<open>copy_recursively\<close>:
  \<^verbatim>\<open>ignored_exts and any(f.lower().endswith(ext.lower()) for ext in ignored_exts)\<close>.
  The parameter defaults to \<open>None\<close>; \<open>None\<close> and the empty list are both falsy.
\<close>

fun is_ignored :: "(string \<Rightarrow> string) \<Rightarrow> string \<Rightarrow> string list option \<Rightarrow> bool" where
  "is_ignored str_lower f None = False"
| "is_ignored str_lower f (Some exts) =
     (exts \<noteq> [] \<and> list_ex (\<lambda>ext. endswith (str_lower f) (str_lower ext)) exts)"

subsection \<open>File metadata and the change classifier\<close>

text \<open>
  \<open>st_mtime\<close> is a float, that is a rational number of seconds; \<open>int(x)\<close> on a float
  truncates towards zero.
\<close>

record stat =
  st_size :: nat
  st_mtime :: rat

definition py_int :: "rat \<Rightarrow> int" where
  "py_int x = (if 0 \<le> x then \<lfloor>x\<rfloor> else \<lceil>x\<rceil>)"

text \<open>
  \<open>files_are_identical\<close> takes the results of the two \<open>stat()\<close> calls; \<open>None\<close> stands
  for the \<open>FileNotFoundError\<close> that the function catches.
\<close>

fun files_are_identical :: "stat option \<Rightarrow> stat option \<Rightarrow> bool" where
  "files_are_identical (Some s) (Some d) =
     (st_size s = st_size d \<and> py_int (st_mtime s) = py_int (st_mtime d))"
| "files_are_identical _ _ = False"

text \<open>
  The condition of the copy branch,
  \<^verbatim>\<open>not dst_file.exists() or not files_are_identical(src_file, dst_file)\<close>;
  \<open>exists()\<close> holds when the destination can be stat'ed.
\<close>

definition needs_copy :: "stat option \<Rightarrow> stat option \<Rightarrow> bool" where
  "needs_copy s d = (d = None \<or> \<not> files_are_identical s d)"

subsection \<open>Source tree and \<open>os.walk\<close>\<close>

text \<open>
  A path is the list of its components. The source tree is read, never written, and
  is taken as a value of its own, apart from the destinations: a file with its metadata,
  a directory with its named entries in listing order, or a directory that cannot be
  listed.
\<close>

type_synonym path = "string list"

datatype snode = SFile stat | SDir "(string \<times> snode) list" | SDenied

fun is_sdir :: "snode \<Rightarrow> bool" where
  "is_sdir (SFile s) = False"
| "is_sdir (SDir es) = True"
| "is_sdir SDenied = True"

fun dir_names :: "(string \<times> snode) list \<Rightarrow> string list" where
  "dir_names [] = []"
| "dir_names ((n, c) # es) = (if is_sdir c then n # dir_names es else dir_names es)"

fun file_entries :: "(string \<times> snode) list \<Rightarrow> (string \<times> stat) list" where
  "file_entries [] = []"
| "file_entries ((n, SFile s) # es) = (n, s) # file_entries es"
| "file_entries ((n, c) # es) = file_entries es"

text \<open>
  \<open>os.walk(src)\<close>, top-down, with its defaults: a directory whose listing fails
  yields nothing (\<open>onerror\<close> is \<open>None\<close>, the error is dropped), as does a root that is
  not a directory. Each item is the directory's path relative to the root, the names of
  its subdirectories and its files; the files carry what \<open>stat()\<close> returns for them.
  \<open>walk_children\<close> descends into the entries in order; a file entry contributes no
  item, so this is the descent into \<open>dirs\<close>.
\<close>

fun walk :: "path \<Rightarrow> snode \<Rightarrow> (path \<times> string list \<times> (string \<times> stat) list) list"
  and walk_children ::
    "path \<Rightarrow> (string \<times> snode) list \<Rightarrow> (path \<times> string list \<times> (string \<times> stat) list) list"
where
  "walk rel (SDir es) = (rel, dir_names es, file_entries es) # walk_children rel es"
| "walk rel (SFile s) = []"
| "walk rel SDenied = []"
| "walk_children rel [] = []"
| "walk_children rel ((n, c) # es) = walk (rel @ [n]) c @ walk_children rel es"

definition count_total_files :: "snode \<Rightarrow> nat" where
  "count_total_files src = sum_list (map (\<lambda>(root, dirs, files). length files) (walk [] src))"

subsection \<open>Destination file system\<close>

datatype error =
    FileNotFoundError | FileExistsError | NotADirectoryError | IsADirectoryError
  | PermissionError | OSError

datatype entry = File stat | Dir

type_synonym filesystem = "path \<Rightarrow> entry option"

text \<open>
  What the program cannot decide by itself is read from an environment: the metadata
  \<open>stat()\<close> reports for a directory, and the failures that come from outside, of
  \<open>os.mkdir\<close> (permissions), of opening a source file for reading, and of writing a
  copy (permissions, a full disk). A copy that fails while writing may leave a partly
  written file behind.
\<close>

record env =
  dir_stat :: "path \<Rightarrow> stat"
  mkdir_fault :: "path \<Rightarrow> error option"
  read_fault :: "path \<Rightarrow> error option"
  write_fault :: "path \<Rightarrow> path \<Rightarrow> (error \<times> stat option) option"

definition path_exists :: "filesystem \<Rightarrow> path \<Rightarrow> bool" where
  "path_exists fs p = (fs p \<noteq> None)"

definition is_dir :: "filesystem \<Rightarrow> path \<Rightarrow> bool" where
  "is_dir fs p = (fs p = Some Dir)"

definition stat_of :: "env \<Rightarrow> filesystem \<Rightarrow> path \<Rightarrow> stat option" where
  "stat_of env fs p =
     (case fs p of None \<Rightarrow> None | Some (File s) \<Rightarrow> Some s | Some Dir \<Rightarrow> Some (dir_stat env p))"

definition basename :: "path \<Rightarrow> string" where
  "basename p = (case rev p of [] \<Rightarrow> [] | x # xs \<Rightarrow> x)"

text \<open>\<open>os.mkdir(p)\<close>: the path must be free and its parent a directory.\<close>

definition os_mkdir :: "env \<Rightarrow> filesystem \<Rightarrow> path \<Rightarrow> error + filesystem" where
  "os_mkdir env fs p =
     (if fs p \<noteq> None then Inl FileExistsError
      else if p = [] then Inl FileNotFoundError
      else (case fs (butlast p) of
              None \<Rightarrow> Inl FileNotFoundError
            | Some (File s) \<Rightarrow> Inl NotADirectoryError
            | Some Dir \<Rightarrow>
                (case mkdir_fault env p of Some e \<Rightarrow> Inl e | None \<Rightarrow> Inr (fs(p \<mapsto> Dir)))))"

text \<open>
  \<open>Path.mkdir(parents=False, exist_ok=True)\<close>: \<open>FileNotFoundError\<close> is raised again;
  any other error is dropped when the path is a directory.
\<close>

definition mkdir_exist_ok :: "env \<Rightarrow> filesystem \<Rightarrow> path \<Rightarrow> error option \<times> filesystem" where
  "mkdir_exist_ok env fs p =
     (case os_mkdir env fs p of
        Inr fs' \<Rightarrow> (None, fs')
      | Inl e \<Rightarrow>
          if e = FileNotFoundError then (Some e, fs)
          else if is_dir fs p then (None, fs) else (Some e, fs))"

text \<open>
  \<open>Path.mkdir(parents=True, exist_ok=True)\<close>: on \<open>FileNotFoundError\<close> the parent is
  made in the same way and the directory is tried once more; the root is its own parent.
  The file system is returned also when an error is raised, with the parents made so far.
\<close>

fun mkdir_parents :: "env \<Rightarrow> filesystem \<Rightarrow> path \<Rightarrow> error option \<times> filesystem" where
  "mkdir_parents env fs p =
     (case os_mkdir env fs p of
        Inr fs' \<Rightarrow> (None, fs')
      | Inl e \<Rightarrow>
          if e = FileNotFoundError then
            (if p = [] then (Some e, fs)
             else (case mkdir_parents env fs (butlast p) of
                     (Some e', fs1) \<Rightarrow> (Some e', fs1)
                   | (None, fs1) \<Rightarrow> mkdir_exist_ok env fs1 p))
          else if is_dir fs p then (None, fs) else (Some e, fs))"

declare mkdir_parents.simps [simp del]

text \<open>
  \<open>shutil.copy2(src, dst)\<close> for a source file with metadata \<open>s\<close>: a destination that
  is a directory receives the file under the source's base name; the source is opened
  first, then the target, which must not be a directory and whose parent must be one;
  on success the target carries the size and modification time of the source.
\<close>

definition copy2 :: "env \<Rightarrow> filesystem \<Rightarrow> path \<Rightarrow> stat \<Rightarrow> path \<Rightarrow> error option \<times> filesystem" where
  "copy2 env fs src s dst =
     (let target = (if is_dir fs dst then dst @ [basename src] else dst) in
      case read_fault env src of
        Some e \<Rightarrow> (Some e, fs)
      | None \<Rightarrow>
          if is_dir fs target then (Some IsADirectoryError, fs)
          else (case fs (butlast target) of
                  None \<Rightarrow> (Some FileNotFoundError, fs)
                | Some (File s') \<Rightarrow> (Some NotADirectoryError, fs)
                | Some Dir \<Rightarrow>
                    (case write_fault env src target of
                       None \<Rightarrow> (None, fs(target \<mapsto> File s))
                     | Some (e, None) \<Rightarrow> (Some e, fs)
                     | Some (e, Some s') \<Rightarrow> (Some e, fs(target \<mapsto> File s')))))"

subsection \<open>The run over one destination: \<open>copy_recursively\<close>\<close>

text \<open>
  Log records and dialogs are the events of a trace. The state a run works on is the
  destination file system, the trace and the state of the progress display, on which
  the progress callback acts.
\<close>

datatype event =
    LogSkippedIgnored string
  | LogCopied path path
  | LogSkippedIdentical path
  | LogErrorCopying path path error
  | LogTryingToMap path
  | LogMapped path
  | LogMapFailed path
  | LogNetUseException error
  | LogNotAccessible path string
  | LogCannotAccess path
  | LogStarting string path
  | LogCompleted string
  | LogErrorCopyingTo path error
  | DlgSourceInvalid
  | DlgNoneSelected
  | DlgCredentialsRequired
  | DlgMappingFailed path
  | DlgCopyFailed string error
  | DlgDone

record 'u world =
  disk :: filesystem
  trace :: "event list"
  ui :: 'u

type_synonym 'u callback = "nat \<Rightarrow> nat \<Rightarrow> 'u \<Rightarrow> 'u"

definition emit :: "event \<Rightarrow> 'u world \<Rightarrow> 'u world" where
  "emit e w = w\<lparr>trace := trace w @ [e]\<rparr>"

text \<open>The \<open>for d in dirs\<close> loop; an error of \<open>mkdir\<close> leaves the loop.\<close>

fun mkdirs :: "env \<Rightarrow> filesystem \<Rightarrow> path \<Rightarrow> string list \<Rightarrow> error option \<times> filesystem" where
  "mkdirs env fs dst_root [] = (None, fs)"
| "mkdirs env fs dst_root (d # ds) =
     (case mkdir_parents env fs (dst_root @ [d]) of
        (Some e, fs') \<Rightarrow> (Some e, fs')
      | (None, fs') \<Rightarrow> mkdirs env fs' dst_root ds)"

text \<open>
  The body of the \<open>for f in files\<close> loop, on the counter \<open>copied\<close> and the state. An
  ignored file leaves the body at \<open>continue\<close>; otherwise the \<open>try\<close> block copies or
  skips, an exception of the copy is logged, and then the counter is incremented and
  the callback, when given, is called.
\<close>

definition copy_file ::
  "(string \<Rightarrow> string) \<Rightarrow> env \<Rightarrow> path \<Rightarrow> path \<Rightarrow> string list option \<Rightarrow> 'u callback option \<Rightarrow> nat
    \<Rightarrow> string \<times> stat \<Rightarrow> nat \<times> 'u world \<Rightarrow> nat \<times> 'u world" where
  "copy_file str_lower env src_dir dst_root ignored_exts progress_callback total_files fe cw =
     (case fe of (f, s) \<Rightarrow> case cw of (copied, w) \<Rightarrow>
       if is_ignored str_lower f ignored_exts then (copied, emit (LogSkippedIgnored f) w)
       else
         let src_file = src_dir @ [f];
             dst_file = dst_root @ [f];
             w1 = (if needs_copy (Some s) (stat_of env (disk w) dst_file)
                   then (case copy2 env (disk w) src_file s dst_file of
                           (None, fs') \<Rightarrow> emit (LogCopied src_file dst_file) (w\<lparr>disk := fs'\<rparr>)
                         | (Some e, fs') \<Rightarrow>
                             emit (LogErrorCopying src_file dst_file e) (w\<lparr>disk := fs'\<rparr>))
                   else emit (LogSkippedIdentical src_file) w);
             copied1 = copied + 1
         in (copied1,
             case progress_callback of
               None \<Rightarrow> w1
             | Some k \<Rightarrow> w1\<lparr>ui := k copied1 total_files (ui w1)\<rparr>))"

fun copy_files ::
  "(string \<Rightarrow> string) \<Rightarrow> env \<Rightarrow> path \<Rightarrow> path \<Rightarrow> string list option \<Rightarrow> 'u callback option \<Rightarrow> nat
    \<Rightarrow> (string \<times> stat) list \<Rightarrow> nat \<times> 'u world \<Rightarrow> nat \<times> 'u world" where
  "copy_files str_lower env src_dir dst_root ign cb total_files [] cw = cw"
| "copy_files str_lower env src_dir dst_root ign cb total_files (fe # files) cw =
     copy_files str_lower env src_dir dst_root ign cb total_files files
       (copy_file str_lower env src_dir dst_root ign cb total_files fe cw)"

text \<open>
  The body of the loop over \<open>os.walk(src)\<close>: the subdirectories of the visited
  directory are made under the destination, then its files are processed.
\<close>

definition visit ::
  "(string \<Rightarrow> string) \<Rightarrow> env \<Rightarrow> path \<Rightarrow> path \<Rightarrow> string list option \<Rightarrow> 'u callback option \<Rightarrow> nat
    \<Rightarrow> path \<times> string list \<times> (string \<times> stat) list \<Rightarrow> nat \<times> 'u world
    \<Rightarrow> error option \<times> nat \<times> 'u world" where
  "visit str_lower env src dst ign cb total_files item cw =
     (case item of (rel_root, dirs, files) \<Rightarrow> case cw of (copied, w) \<Rightarrow>
        let dst_root = dst @ rel_root in
        (case mkdirs env (disk w) dst_root dirs of
           (Some e, fs') \<Rightarrow> (Some e, copied, w\<lparr>disk := fs'\<rparr>)
         | (None, fs') \<Rightarrow>
             (None, copy_files str_lower env (src @ rel_root) dst_root ign cb total_files files
                      (copied, w\<lparr>disk := fs'\<rparr>))))"

fun visit_all ::
  "(string \<Rightarrow> string) \<Rightarrow> env \<Rightarrow> path \<Rightarrow> path \<Rightarrow> string list option \<Rightarrow> 'u callback option \<Rightarrow> nat
    \<Rightarrow> (path \<times> string list \<times> (string \<times> stat) list) list \<Rightarrow> nat \<times> 'u world
    \<Rightarrow> error option \<times> nat \<times> 'u world" where
  "visit_all str_lower env src dst ign cb total_files [] cw = (None, cw)"
| "visit_all str_lower env src dst ign cb total_files (item # items) cw =
     (case visit str_lower env src dst ign cb total_files item cw of
        (Some e, cw') \<Rightarrow> (Some e, cw')
      | (None, cw') \<Rightarrow> visit_all str_lower env src dst ign cb total_files items cw')"

text \<open>
  \<open>copy_recursively(src, dst, ignored_exts, progress_callback)\<close> on the source tree
  found at \<open>src\<close>. The result is the exception that ended the run, if any, and the
  state reached.
\<close>

definition copy_recursively ::
  "(string \<Rightarrow> string) \<Rightarrow> env \<Rightarrow> path \<Rightarrow> snode \<Rightarrow> path \<Rightarrow> string list option \<Rightarrow> 'u callback option \<Rightarrow> 'u world
    \<Rightarrow> error option \<times> 'u world" where
  "copy_recursively str_lower env src tree dst ignored_exts progress_callback w =
     (let total_files = count_total_files tree in
      case visit_all str_lower env src dst ignored_exts progress_callback total_files
             (walk [] tree) (0, w) of
        (r, copied, w') \<Rightarrow> (r, w'))"

subsection \<open>Reaching a destination: \<open>ensure_path_mapped\<close>\<close>

text \<open>
  The platform is read from a second environment: the name \<open>platform.system()\<close>
  returns, the answers to the two credential dialogs (\<open>None\<close> when a dialog is
  cancelled), and the \<open>net use\<close> command, which returns an exit status or makes
  \<open>subprocess.run\<close> raise, and may change what the file system shows.
\<close>

record host =
  system :: string
  ask_username :: "path \<Rightarrow> string option"
  ask_password :: "path \<Rightarrow> string option"
  net_use :: "path \<Rightarrow> string \<Rightarrow> string \<Rightarrow> filesystem \<Rightarrow> (error + int) \<times> filesystem"

text \<open>\<open>not x\<close> for an optional string: \<open>None\<close> and the empty string are falsy.\<close>

fun falsy :: "string option \<Rightarrow> bool" where
  "falsy None = True"
| "falsy (Some x) = (x = [])"

definition ensure_path_mapped ::
  "host \<Rightarrow> path \<Rightarrow> string \<Rightarrow> 'u world \<Rightarrow> bool \<times> 'u world" where
  "ensure_path_mapped h share_path host_type w =
     (if host_type = ''local'' then (path_exists (disk w) share_path, w)
      else if path_exists (disk w) share_path then (True, w)
      else if system h = ''Windows'' then
        (let w1 = emit (LogTryingToMap share_path) w;
             username = ask_username h share_path;
             password = ask_password h share_path
         in if falsy username \<or> falsy password then (False, emit DlgCredentialsRequired w1)
            else (case (username, password) of
                    (Some u, Some pw) \<Rightarrow>
                      (case net_use h share_path pw u (disk w1) of
                         (Inr returncode, fs') \<Rightarrow>
                           if returncode = 0
                           then (True, emit (LogMapped share_path) (w1\<lparr>disk := fs'\<rparr>))
                           else (path_exists fs' share_path,
                                 emit (LogMapFailed share_path) (w1\<lparr>disk := fs'\<rparr>))
                       | (Inl e, fs') \<Rightarrow>
                           (path_exists fs' share_path,
                            emit (LogNetUseException e) (w1\<lparr>disk := fs'\<rparr>)))
                  | _ \<Rightarrow> (False, emit DlgCredentialsRequired w1)))
      else if system h = ''Linux'' \<or> system h = ''Darwin'' then
        (path_exists (disk w) share_path, emit (LogNotAccessible share_path (system h)) w)
      else (path_exists (disk w) share_path, w))"

subsection \<open>The run over the selected destinations: \<open>CopyApp.start_copy\<close>\<close>

text \<open>
  The progress bar is the list of the assignments made to it; \<open>SetPercent c t\<close> stands
  for the assignment of \<open>int((c / t) * 100)\<close>. \<open>update_progress\<close> returns at once
  when the total is zero.
\<close>

datatype progress = SetZero | SetPercent nat nat

definition update_progress :: "progress list callback" where
  "update_progress current total_files bar =
     (if total_files = 0 then bar else bar @ [SetPercent current total_files])"

text \<open>
  The body of the loop over the selected destinations: a destination that cannot be
  reached is reported and left at \<open>continue\<close>; an exception of \<open>copy_recursively\<close> is
  caught and reported.
\<close>

definition sync_one ::
  "(string \<Rightarrow> string) \<Rightarrow> env \<Rightarrow> host \<Rightarrow> path \<Rightarrow> snode \<Rightarrow> string list \<Rightarrow> string \<times> path \<times> string
    \<Rightarrow> progress list world \<Rightarrow> progress list world" where
  "sync_one str_lower env h src tree ignored_extensions sel w =
     (case sel of (name, dst_base, htype) \<Rightarrow>
        (case ensure_path_mapped h dst_base htype w of
           (False, w1) \<Rightarrow> emit (DlgMappingFailed dst_base) (emit (LogCannotAccess dst_base) w1)
         | (True, w1) \<Rightarrow>
             let w2 = emit (LogStarting name dst_base) (w1\<lparr>ui := ui w1 @ [SetZero]\<rparr>) in
             (case copy_recursively str_lower env src tree dst_base (Some ignored_extensions)
                     (Some update_progress) w2 of
                (None, w3) \<Rightarrow> emit (LogCompleted name) w3
              | (Some e, w3) \<Rightarrow>
                  emit (DlgCopyFailed name e) (emit (LogErrorCopyingTo dst_base e) w3))))"

fun sync_selected ::
  "(string \<Rightarrow> string) \<Rightarrow> env \<Rightarrow> host \<Rightarrow> path \<Rightarrow> snode \<Rightarrow> string list \<Rightarrow> (string \<times> path \<times> string) list
    \<Rightarrow> progress list world \<Rightarrow> progress list world" where
  "sync_selected str_lower env h src tree ign [] w = w"
| "sync_selected str_lower env h src tree ign (sel # selected) w =
     sync_selected str_lower env h src tree ign selected (sync_one str_lower env h src tree ign sel w)"

text \<open>
  \<open>start_copy\<close>: \<open>source\<close> is \<open>None\<close> when no source folder was chosen, and a path with
  \<open>None\<close> when the chosen path does not exist.
\<close>

definition start_copy ::
  "(string \<Rightarrow> string) \<Rightarrow> env \<Rightarrow> host \<Rightarrow> (path \<times> snode option) option \<Rightarrow> string list
    \<Rightarrow> (string \<times> path \<times> string) list \<Rightarrow> progress list world \<Rightarrow> progress list world" where
  "start_copy str_lower env h source ignored_extensions selected w =
     (case source of
        None \<Rightarrow> emit DlgSourceInvalid w
      | Some (src, None) \<Rightarrow> emit DlgSourceInvalid w
      | Some (src, Some tree) \<Rightarrow>
          if selected = [] then emit DlgNoneSelected w
          else
            let w1 = sync_selected str_lower env h src tree ignored_extensions selected w;
                w2 = emit DlgDone w1
            in w2\<lparr>ui := ui w2 @ [SetZero]\<rparr>)"

subsection \<open>Observations on traces\<close>

text \<open>
  The verdict events are the records by which the loop of \<open>start_copy\<close> closes its
  work on a destination. \<open>errors\<close> counts the copy errors of a trace. A skip event is
  what a file that is left alone is logged with.
\<close>

fun verdict :: "event \<Rightarrow> bool" where
  "verdict (LogCannotAccess p) = True"
| "verdict (LogCompleted n) = True"
| "verdict (LogErrorCopyingTo p e) = True"
| "verdict e = False"

fun is_copy_error :: "event \<Rightarrow> bool" where
  "is_copy_error (LogErrorCopying s d e) = True"
| "is_copy_error e = False"

definition errors :: "event list \<Rightarrow> nat" where
  "errors tr = length (filter is_copy_error tr)"

fun is_skip :: "event \<Rightarrow> bool" where
  "is_skip (LogSkippedIgnored f) = True"
| "is_skip (LogSkippedIdentical p) = True"
| "is_skip e = False"

text \<open>
  The events of a file loop all of whose copies fail for want of the destination
  directory: the error is that of opening the source, if that fails, and otherwise the
  missing directory.
\<close>

definition missing_base_events ::
  "(string \<Rightarrow> string) \<Rightarrow> env \<Rightarrow> path \<Rightarrow> path \<Rightarrow> string list option \<Rightarrow> (string \<times> stat) list \<Rightarrow> event list"
  where
  "missing_base_events str_lower env src dst ign files =
     map (\<lambda>(f, s). if is_ignored str_lower f ign then LogSkippedIgnored f
                    else LogErrorCopying (src @ [f]) (dst @ [f])
                           (case read_fault env (src @ [f]) of
                              Some e \<Rightarrow> e
                            | None \<Rightarrow> FileNotFoundError)) files"

text \<open>The events of a run that finds every file of a walk ignored or up to date.\<close>

definition skip_event :: "(string \<Rightarrow> string) \<Rightarrow> path \<Rightarrow> string list option \<Rightarrow> string \<times> stat \<Rightarrow> event" where
  "skip_event str_lower src_dir ign fe =
     (if is_ignored str_lower (fst fe) ign then LogSkippedIgnored (fst fe)
      else LogSkippedIdentical (src_dir @ [fst fe]))"

fun item_skip_events ::
  "(string \<Rightarrow> string) \<Rightarrow> path \<Rightarrow> string list option \<Rightarrow> path \<times> string list \<times> (string \<times> stat) list \<Rightarrow> event list"
  where
  "item_skip_events str_lower src ign (rel, dirs, files) = map (skip_event str_lower (src @ rel) ign) files"

definition skip_events ::
  "(string \<Rightarrow> string) \<Rightarrow> path \<Rightarrow> string list option \<Rightarrow> (path \<times> string list \<times> (string \<times> stat) list) list
    \<Rightarrow> event list" where
  "skip_events str_lower src ign items = concat (map (item_skip_events str_lower src ign) items)"

subsection \<open>Relations between file system states\<close>

text \<open>
  \<open>grows_dirs fs fs'\<close>: the second state is the first with directories added at free
  paths. \<open>dirs_kept fs fs'\<close>: every directory of the first state is one of the second.
\<close>

definition grows_dirs :: "filesystem \<Rightarrow> filesystem \<Rightarrow> bool" where
  "grows_dirs fs fs' = (\<forall>q. fs' q = fs q \<or> (fs q = None \<and> fs' q = Some Dir))"

definition dirs_kept :: "filesystem \<Rightarrow> filesystem \<Rightarrow> bool" where
  "dirs_kept fs fs' = (\<forall>q. is_dir fs q \<longrightarrow> is_dir fs' q)"

text \<open>
  The destination paths of the files of a walk that are not ignored.
  \<open>good fs p s\<close>: the path holds a file that the classifier takes for a copy of a
  source file with metadata \<open>s\<close>. \<open>item_synced\<close>: the subdirectories of a walk item
  exist and its files that are not ignored are good.
\<close>

fun item_dst_files ::
  "(string \<Rightarrow> string) \<Rightarrow> path \<Rightarrow> string list option \<Rightarrow> path \<times> string list \<times> (string \<times> stat) list \<Rightarrow> path list" where
  "item_dst_files str_lower dst ign (rel, dirs, files) =
     map (\<lambda>fe. dst @ rel @ [fst fe]) (filter (\<lambda>fe. \<not> is_ignored str_lower (fst fe) ign) files)"

definition dst_files ::
  "(string \<Rightarrow> string) \<Rightarrow> path \<Rightarrow> string list option \<Rightarrow> (path \<times> string list \<times> (string \<times> stat) list) list \<Rightarrow> path list"
  where
  "dst_files str_lower dst ign items = concat (map (item_dst_files str_lower dst ign) items)"

definition good :: "filesystem \<Rightarrow> path \<Rightarrow> stat \<Rightarrow> bool" where
  "good fs p s = (\<exists>s'. fs p = Some (File s') \<and> files_are_identical (Some s) (Some s'))"

fun item_synced ::
  "(string \<Rightarrow> string) \<Rightarrow> filesystem \<Rightarrow> path \<Rightarrow> string list option \<Rightarrow> path \<times> string list \<times> (string \<times> stat) list \<Rightarrow> bool"
  where
  "item_synced str_lower fs dst ign (rel, dirs, files) =
     ((\<forall>d \<in> set dirs. is_dir fs (dst @ rel @ [d]))
      \<and> (\<forall>fe \<in> set files. \<not> is_ignored str_lower (fst fe) ign \<longrightarrow> good fs (dst @ rel @ [fst fe]) (snd fe)))"

subsection \<open>Well-formed source trees\<close>

text \<open>
  A source tree is well formed when the names listed in each of its directories are
  distinct, as they are in the listing of a directory.
\<close>

fun wf_tree :: "snode \<Rightarrow> bool" and wf_children :: "(string \<times> snode) list \<Rightarrow> bool" where
  "wf_tree (SDir es) = (distinct (map fst es) \<and> wf_children es)"
| "wf_tree (SFile s) = True"
| "wf_tree SDenied = True"
| "wf_children [] = True"
| "wf_children ((n, c) # es) = (wf_tree c \<and> wf_children es)"

subsection \<open>Example inputs\<close>

text \<open>
  The example inputs have names of ASCII characters only. On such strings \<open>str.lower\<close>
  maps the letters \<open>A\<close> to \<open>Z\<close> to \<open>a\<close> to \<open>z\<close> and leaves every other character as
  it is; \<open>ascii_lower\<close> is that function, and stands for \<open>str.lower\<close> on the examples.
\<close>

definition ascii_lower_char :: "char \<Rightarrow> char" where
  "ascii_lower_char c =
     (let n = (of_char c :: nat) in if 65 \<le> n \<and> n \<le> 90 then char_of (n + 32) else c)"

definition ascii_lower :: "string \<Rightarrow> string" where
  "ascii_lower s = map ascii_lower_char s"

text \<open>
  A Windows host on which the mapping command reports success and changes nothing.
\<close>

definition windows_host :: host where
  "windows_host = \<lparr>system = ''Windows'', ask_username = (\<lambda>p. Some ''user''),
     ask_password = (\<lambda>p. Some ''secret''),
     net_use = (\<lambda>p pw u fs. (Inr 0, fs))\<rparr>"

text \<open>
  Further hosts: Windows with the password dialog cancelled; Windows on which the
  mapping command fails; Linux.
\<close>

definition cancelled_host :: host where
  "cancelled_host = windows_host\<lparr>ask_password := (\<lambda>p. None)\<rparr>"

definition failing_host :: host where
  "failing_host = windows_host\<lparr>net_use := (\<lambda>p pw u fs. (Inr 2, fs))\<rparr>"

definition linux_host :: host where
  "linux_host = windows_host\<lparr>system := ''Linux''\<rparr>"

text \<open>An environment without outside failures, and a callback that records its calls.\<close>

definition plain_env :: env where
  "plain_env = \<lparr>dir_stat = (\<lambda>p. \<lparr>st_size = 4096, st_mtime = 0\<rparr>),
     mkdir_fault = (\<lambda>p. None), read_fault = (\<lambda>p. None),
     write_fault = (\<lambda>src dst. None)\<rparr>"


definition record_call :: "(nat \<times> nat) list callback" where
  "record_call processed total_files calls = calls @ [(processed, total_files)]"

text \<open>
  Sources: one ordinary and one ignorable file; an empty subdirectory and a file; a file
  in a subdirectory beside two files; a single file.
\<close>

definition two_files :: snode where
  "two_files = SDir [(''a.txt'', SFile \<lparr>st_size = 10, st_mtime = 100\<rparr>),
                     (''b.tmp'', SFile \<lparr>st_size = 5, st_mtime = 100\<rparr>)]"

definition with_empty_dir :: snode where
  "with_empty_dir = SDir [(''empty'', SDir []), (''a.txt'', SFile \<lparr>st_size = 10, st_mtime = 100\<rparr>)]"

definition nested_source :: snode where
  "nested_source =
     SDir [(''sub'', SDir [(''c.txt'', SFile \<lparr>st_size = 7, st_mtime = 50 / 4\<rparr>)]),
           (''a.txt'', SFile \<lparr>st_size = 10, st_mtime = 100\<rparr>),
           (''b.tmp'', SFile \<lparr>st_size = 5, st_mtime = 100\<rparr>)]"

definition one_file :: snode where
  "one_file = SDir [(''a.txt'', SFile \<lparr>st_size = 10, st_mtime = 100\<rparr>)]"

text \<open>
  States: nothing at all; the root directory only, with no display and with a progress
  bar; the destination directory \<open>dst\<close>,
  with a call record and with a progress bar; \<open>dst\<close> holding a file where
  \<open>with_empty_dir\<close> has its subdirectory, beside a second destination \<open>ok\<close>; \<open>dst\<close>
  holding a directory under the name of the file of \<open>one_file\<close>; and the state that
  the first run over \<open>nested_source\<close> leaves.
\<close>

definition empty_world :: "unit world" where
  "empty_world = \<lparr>disk = Map.empty, trace = [], ui = ()\<rparr>"

definition root_world :: "unit world" where
  "root_world = \<lparr>disk = [[] \<mapsto> Dir], trace = [], ui = ()\<rparr>"

definition bare_world :: "progress list world" where
  "bare_world = \<lparr>disk = [[] \<mapsto> Dir], trace = [], ui = []\<rparr>"

definition dst_world :: "(nat \<times> nat) list world" where
  "dst_world = \<lparr>disk = [[''dst''] \<mapsto> Dir], trace = [], ui = []\<rparr>"

definition bar_world :: "progress list world" where
  "bar_world = \<lparr>disk = [[''dst''] \<mapsto> Dir], trace = [], ui = []\<rparr>"

definition clash_world :: "progress list world" where
  "clash_world = \<lparr>disk = [[''dst''] \<mapsto> Dir,
                           [''dst'', ''empty''] \<mapsto> File \<lparr>st_size = 1, st_mtime = 1\<rparr>,
                           [''ok''] \<mapsto> Dir],
                   trace = [], ui = []\<rparr>"

definition dir_in_the_way :: "(nat \<times> nat) list world" where
  "dir_in_the_way = \<lparr>disk = [[''dst''] \<mapsto> Dir, [''dst'', ''a.txt''] \<mapsto> Dir],
                      trace = [], ui = []\<rparr>"

definition after_first_run :: "(nat \<times> nat) list world" where
  "after_first_run =
     \<lparr>disk = [[''dst''] \<mapsto> Dir, [''dst'', ''sub''] \<mapsto> Dir,
              [''dst'', ''a.txt''] \<mapsto> File \<lparr>st_size = 10, st_mtime = 100\<rparr>,
              [''dst'', ''sub'', ''c.txt''] \<mapsto> File \<lparr>st_size = 7, st_mtime = 50 / 4\<rparr>],
      trace = [LogCopied [''src'', ''a.txt''] [''dst'', ''a.txt''],
               LogSkippedIgnored ''b.tmp'',
               LogCopied [''src'', ''sub'', ''c.txt''] [''dst'', ''sub'', ''c.txt'']],
      ui = [(1, 3), (2, 3)]\<rparr>"

text \<open>Three selected destinations, the first of which does not exist.\<close>

definition three_selected :: "(string \<times> path \<times> string) list" where
  "three_selected =
     [(''A'', [''missing''], ''local''), (''B'', [''dst''], ''local''), (''C'', [''ok''], ''local'')]"

text \<open>
  The state that the loop over \<open>three_selected\<close> has reached from \<open>clash_world\<close> after
  its first two destinations, neither of which was synced.
\<close>

definition after_two_failures :: "progress list world" where
  "after_two_failures =
     \<lparr>disk = [[''dst''] \<mapsto> Dir,
              [''dst'', ''empty''] \<mapsto> File \<lparr>st_size = 1, st_mtime = 1\<rparr>,
              [''ok''] \<mapsto> Dir],
      trace = [LogCannotAccess [''missing''], DlgMappingFailed [''missing''],
               LogStarting ''B'' [''dst''],
               LogErrorCopyingTo [''dst''] FileExistsError, DlgCopyFailed ''B'' FileExistsError],
      ui = [SetZero]\<rparr>"

section \<open>Properties\<close>

subsection \<open>Extension filter\<close>

lemma endswith_suffix: "endswith s t \<longleftrightarrow> suffix t s"
proof
  assume "endswith s t"
  then have "s = take (length s - length t) s @ t"
    by (metis append_take_drop_id endswith_def)
  then show "suffix t s" by (metis suffixI)
next
  assume "suffix t s"
  then obtain p where "s = p @ t" by (auto simp: suffix_def)
  then show "endswith s t" by (simp add: endswith_def)
qed

lemma ascii_lower_char_T [simp]: "ascii_lower_char CHR ''T'' = CHR ''t''"
  and ascii_lower_char_M [simp]: "ascii_lower_char CHR ''M'' = CHR ''m''"
  and ascii_lower_char_P [simp]: "ascii_lower_char CHR ''P'' = CHR ''p''"
  and ascii_lower_char_x [simp]: "ascii_lower_char CHR ''x'' = CHR ''x''"
  and ascii_lower_char_t [simp]: "ascii_lower_char CHR ''t'' = CHR ''t''"
  and ascii_lower_char_m [simp]: "ascii_lower_char CHR ''m'' = CHR ''m''"
  and ascii_lower_char_p [simp]: "ascii_lower_char CHR ''p'' = CHR ''p''"
  and ascii_lower_char_dot [simp]: "ascii_lower_char CHR ''.'' = CHR ''.''"
  and ascii_lower_char_2 [simp]: "ascii_lower_char CHR ''2'' = CHR ''2''"
  by code_simp+

text \<open>
  C4. Whatever function lowers the case, a file is ignored if and only if its lowered
  name ends with the lowered form of some configured suffix. Where lowering takes
  \<open>x.TMP\<close> to \<open>x.tmp\<close> and leaves \<open>.tmp\<close> and \<open>x.tmp2\<close> as they are, \<open>x.TMP\<close> is
  ignored under \<open>.tmp\<close> and \<open>x.tmp2\<close> is not. The empty list, like an absent list,
  ignores nothing.
\<close>

theorem ignore_iff_suffix:
  "(is_ignored str_lower f (Some exts)
      \<longleftrightarrow> (\<exists>ext \<in> set exts. \<exists>p. str_lower f = p @ str_lower ext))
   \<and> (str_lower ''x.TMP'' = ''x.tmp'' \<and> str_lower ''.tmp'' = ''.tmp''
        \<longrightarrow> is_ignored str_lower ''x.TMP'' (Some [''.tmp'']))
   \<and> (str_lower ''x.tmp2'' = ''x.tmp2'' \<and> str_lower ''.tmp'' = ''.tmp''
        \<longrightarrow> \<not> is_ignored str_lower ''x.tmp2'' (Some [''.tmp'']))
   \<and> \<not> is_ignored str_lower f (Some [])
   \<and> \<not> is_ignored str_lower f None"
proof -
  have "is_ignored str_lower f (Some exts)
      \<longleftrightarrow> (\<exists>ext \<in> set exts. \<exists>p. str_lower f = p @ str_lower ext)"
    by (cases exts) (auto simp: list_ex_iff endswith_suffix suffix_def)
  moreover have "str_lower ''x.TMP'' = ''x.tmp'' \<and> str_lower ''.tmp'' = ''.tmp''
        \<longrightarrow> is_ignored str_lower ''x.TMP'' (Some [''.tmp''])"
    by (simp add: endswith_def)
  moreover have "str_lower ''x.tmp2'' = ''x.tmp2'' \<and> str_lower ''.tmp'' = ''.tmp''
        \<longrightarrow> \<not> is_ignored str_lower ''x.tmp2'' (Some [''.tmp''])"
    by (simp add: endswith_def)
  ultimately show ?thesis by simp
qed

theorem ignore_iff_suffix_witness:
  "ascii_lower ''x.TMP'' = ''x.tmp'' \<and> ascii_lower ''.tmp'' = ''.tmp''
   \<and> ascii_lower ''x.tmp2'' = ''x.tmp2''
   \<and> ascii_lower ''x.TMP'' = ''x'' @ ascii_lower ''.tmp''
   \<and> is_ignored ascii_lower ''x.TMP'' (Some [''.tmp''])
   \<and> \<not> is_ignored ascii_lower ''x.tmp2'' (Some [''.tmp''])
   \<and> is_ignored ascii_lower ''x.TMP'' (Some [''.txt'', ''.tmp''])"
proof -
  have 1: "ascii_lower ''x.TMP'' = ''x.tmp''" and 2: "ascii_lower ''.tmp'' = ''.tmp''"
    and 3: "ascii_lower ''x.tmp2'' = ''x.tmp2''"
    by (simp_all add: ascii_lower_def)
  have 4: "ascii_lower ''x.TMP'' = ''x'' @ ascii_lower ''.tmp''" by (simp add: 1 2)
  then have 5: "\<exists>ext \<in> set [''.txt'', ''.tmp'']. \<exists>p. ascii_lower ''x.TMP'' = p @ ascii_lower ext"
    by (intro bexI [of _ "''.tmp''"] exI [of _ "''x''"]) simp_all
  note T = ignore_iff_suffix [where str_lower = ascii_lower]
  from T [of "''x.TMP''" "[''.txt'', ''.tmp'']"] 5
  have a: "is_ignored ascii_lower ''x.TMP'' (Some [''.txt'', ''.tmp''])" by blast
  from T [of "''x.TMP''" "[]"] 1 2
  have b: "is_ignored ascii_lower ''x.TMP'' (Some [''.tmp''])" by blast
  from T [of "''x.TMP''" "[]"] 2 3
  have c: "\<not> is_ignored ascii_lower ''x.tmp2'' (Some [''.tmp''])" by blast
  from 1 2 3 4 a b c show ?thesis by blast
qed

subsection \<open>Change classifier\<close>

text \<open>
  C1 (as amended). For a source file that can be stat'ed, a copy is needed exactly when
  the destination does not exist, or the sizes differ, or the modification times
  truncated to whole seconds differ. Hence a change of the modification time that
  leaves its whole-second part unchanged, with the size unchanged, needs no copy.
\<close>

theorem needs_copy_iff:
  "(needs_copy (Some s) d \<longleftrightarrow>
      (d = None
       \<or> (\<exists>d'. d = Some d' \<and> (st_size d' \<noteq> st_size s
             \<or> py_int (st_mtime d') \<noteq> py_int (st_mtime s)))))
   \<and> (st_size d' = st_size s \<and> py_int (st_mtime d') = py_int (st_mtime s)
        \<longrightarrow> \<not> needs_copy (Some s) (Some d'))"
  by (cases d) (auto simp: needs_copy_def)

lemma py_int_examples:
  "py_int (5 / 2) = 2" "py_int (29 / 10) = 2" "py_int (19 / 10) = 1" "py_int (21 / 10) = 2"
  by code_simp+

theorem needs_copy_iff_witness:
  "\<not> needs_copy (Some \<lparr>st_size = 10, st_mtime = 5 / 2\<rparr>)
                 (Some \<lparr>st_size = 10, st_mtime = 29 / 10\<rparr>)
   \<and> py_int (29 / 10) = py_int (5 / 2)"
  using needs_copy_iff [of "\<lparr>st_size = 10, st_mtime = 5 / 2\<rparr>"
      "Some \<lparr>st_size = 10, st_mtime = 29 / 10\<rparr>" "\<lparr>st_size = 10, st_mtime = 29 / 10\<rparr>"]
  by (simp add: py_int_examples)

text \<open>
  The claim as stated fails for a change of less than one second that crosses a
  whole-second boundary: from 1.9 s to 2.1 s with the size unchanged, a copy is needed.
\<close>

theorem subsecond_change_counterexample:
  "st_size \<lparr>st_size = 10, st_mtime = 21 / 10\<rparr> = st_size \<lparr>st_size = 10, st_mtime = 19 / 10\<rparr>
   \<and> \<bar>st_mtime \<lparr>st_size = 10, st_mtime = 21 / 10\<rparr>
       - st_mtime \<lparr>st_size = 10, st_mtime = 19 / 10\<rparr>\<bar> < 1
   \<and> needs_copy (Some \<lparr>st_size = 10, st_mtime = 19 / 10\<rparr>)
                 (Some \<lparr>st_size = 10, st_mtime = 21 / 10\<rparr>)"
  by (simp add: needs_copy_def py_int_examples)

subsection \<open>Reaching a network destination\<close>

text \<open>
  C3 (as amended). For a destination that is not of type \<open>local\<close> and whose path does
  not exist at the first check: on Windows with a missing user name or password the
  result is \<open>False\<close>, with no further check of the path; with both given, an exit status
  0 of the mapping command gives \<open>True\<close>, whatever the path then shows, while a non-zero
  status or an exception of the command gives the final existence check of the path;
  on every other platform the result is the final existence check.
\<close>

theorem ensure_path_mapped_smb:
  assumes "host_type \<noteq> ''local''" and "\<not> path_exists (disk w) p"
  shows "(system h = ''Windows'' \<and> (falsy (ask_username h p) \<or> falsy (ask_password h p))
            \<longrightarrow> fst (ensure_path_mapped h p host_type w) = False
                \<and> disk (snd (ensure_path_mapped h p host_type w)) = disk w)
       \<and> (system h = ''Windows'' \<and> ask_username h p = Some u \<and> u \<noteq> []
            \<and> ask_password h p = Some pw \<and> pw \<noteq> []
            \<longrightarrow> (case net_use h p pw u (disk w) of
                   (Inr rc, fs') \<Rightarrow>
                     fst (ensure_path_mapped h p host_type w)
                       = (if rc = 0 then True else path_exists fs' p)
                 | (Inl e, fs') \<Rightarrow>
                     fst (ensure_path_mapped h p host_type w) = path_exists fs' p))
       \<and> (system h \<noteq> ''Windows''
            \<longrightarrow> fst (ensure_path_mapped h p host_type w) = path_exists (disk w) p
                \<and> disk (snd (ensure_path_mapped h p host_type w)) = disk w)"
  using assms
  by (auto simp: ensure_path_mapped_def emit_def Let_def split: prod.splits sum.splits)

theorem ensure_path_mapped_smb_witness:
  "fst (ensure_path_mapped windows_host [''share''] ''smb'' empty_world) = True
   \<and> fst (ensure_path_mapped cancelled_host [''share''] ''smb'' empty_world) = False
   \<and> fst (ensure_path_mapped failing_host [''share''] ''smb'' empty_world)
       = path_exists (disk empty_world) [''share'']
   \<and> fst (ensure_path_mapped linux_host [''share''] ''smb'' empty_world)
       = path_exists (disk empty_world) [''share'']"
proof -
  have 1: "''smb'' \<noteq> ''local''" by simp
  have 2: "\<not> path_exists (disk empty_world) [''share'']"
    by (simp add: empty_world_def path_exists_def)
  note T = ensure_path_mapped_smb [OF 1 2]
  have a: "fst (ensure_path_mapped windows_host [''share''] ''smb'' empty_world) = True"
    using T [of windows_host "''user''" "''secret''"]
    by (simp add: windows_host_def empty_world_def)
  have b: "fst (ensure_path_mapped cancelled_host [''share''] ''smb'' empty_world) = False"
    using T [of cancelled_host]
    by (simp add: cancelled_host_def windows_host_def)
  have c: "fst (ensure_path_mapped failing_host [''share''] ''smb'' empty_world)
       = path_exists (disk empty_world) [''share'']"
    using T [of failing_host "''user''" "''secret''"]
    by (simp add: failing_host_def windows_host_def empty_world_def)
  have d: "fst (ensure_path_mapped linux_host [''share''] ''smb'' empty_world)
       = path_exists (disk empty_world) [''share'']"
    using T [of linux_host]
    by (simp add: linux_host_def windows_host_def)
  from a b c d show ?thesis by blast
qed

text \<open>
  The claim as stated fails when the mapping command reports success without making the
  path visible: the result is \<open>True\<close> although the path still does not exist.
\<close>

theorem mapping_success_counterexample:
  "fst (ensure_path_mapped windows_host [''share''] ''smb'' empty_world) = True
   \<and> \<not> path_exists (disk (snd (ensure_path_mapped windows_host [''share''] ''smb'' empty_world)))
          [''share'']"
  by (simp add: ensure_path_mapped_def windows_host_def empty_world_def emit_def path_exists_def)

subsection \<open>Single files\<close>

lemmas run_defs = copy_recursively_def count_total_files_def visit_def copy_file_def copy2_def
   is_dir_def stat_of_def needs_copy_def emit_def endswith_def ascii_lower_def basename_def
   os_mkdir_def mkdir_exist_ok_def mkdir_parents.simps path_exists_def Let_def

text \<open>
  C7. When the copy of a file that is not ignored raises an exception, the exception is
  caught in the loop body: the one event recorded for the file is the error (neither a
  copy nor a skip is logged), the state is what the failed copy left, and the loop goes
  on with the remaining files of the directory.
\<close>

theorem copy_error_is_caught:
  assumes "\<not> is_ignored str_lower f ign"
    and "needs_copy (Some s) (stat_of env (disk w) (dst_root @ [f]))"
    and "copy2 env (disk w) (src_dir @ [f]) s (dst_root @ [f]) = (Some e, fs')"
  shows "\<exists>w'. copy_file str_lower env src_dir dst_root ign cb total_files (f, s) (copied, w) = (Suc copied, w')
            \<and> trace w' = trace w @ [LogErrorCopying (src_dir @ [f]) (dst_root @ [f]) e]
            \<and> disk w' = fs'
            \<and> copy_files str_lower env src_dir dst_root ign cb total_files ((f, s) # files) (copied, w)
                = copy_files str_lower env src_dir dst_root ign cb total_files files (Suc copied, w')"
  using assms by (auto simp: copy_file_def emit_def Let_def split: option.splits)

theorem copy_error_is_caught_witness:
  "\<exists>w'. copy_file ascii_lower plain_env [''src''] [''dst''] (Some [''.tmp'']) None 1
            (''a.txt'', \<lparr>st_size = 10, st_mtime = 100\<rparr>) (0, empty_world) = (Suc 0, w')
        \<and> trace w' = trace empty_world
              @ [LogErrorCopying ([''src''] @ [''a.txt'']) ([''dst''] @ [''a.txt''])
                   FileNotFoundError]
        \<and> disk w' = disk empty_world
        \<and> copy_files ascii_lower plain_env [''src''] [''dst''] (Some [''.tmp'']) None 1
              ((''a.txt'', \<lparr>st_size = 10, st_mtime = 100\<rparr>) # []) (0, empty_world)
            = copy_files ascii_lower plain_env [''src''] [''dst''] (Some [''.tmp'']) None 1 [] (Suc 0, w')"
proof -
  have 1: "\<not> is_ignored ascii_lower ''a.txt'' (Some [''.tmp''])"
    by (simp add: endswith_def ascii_lower_def)
  have 2: "needs_copy (Some \<lparr>st_size = 10, st_mtime = 100\<rparr>)
             (stat_of plain_env (disk empty_world) ([''dst''] @ [''a.txt'']))"
    by (simp add: needs_copy_def stat_of_def empty_world_def)
  have 3: "copy2 plain_env (disk empty_world) ([''src''] @ [''a.txt''])
             \<lparr>st_size = 10, st_mtime = 100\<rparr> ([''dst''] @ [''a.txt''])
           = (Some FileNotFoundError, disk empty_world)"
    by (simp add: copy2_def is_dir_def empty_world_def plain_env_def)
  show ?thesis
    using copy_error_is_caught [OF 1 2 3] .
qed

subsection \<open>Progress\<close>

text \<open>
  C2 on a source with \<open>a.txt\<close> and \<open>b.tmp\<close> and the ignore list \<open>[".tmp"]\<close>: the
  total is 2, the callback is called once, with \<open>(1, 2)\<close>, and not for the ignored
  file; the last reported count stays below the total.
\<close>

theorem ignored_file_not_reported:
  "count_total_files two_files = 2
   \<and> ui (snd (copy_recursively ascii_lower plain_env [''src''] two_files [''dst''] (Some [''.tmp''])
               (Some record_call) dst_world)) = [(1, 2)]
   \<and> trace (snd (copy_recursively ascii_lower plain_env [''src''] two_files [''dst''] (Some [''.tmp''])
               (Some record_call) dst_world))
      = [LogCopied [''src'', ''a.txt''] [''dst'', ''a.txt''], LogSkippedIgnored ''b.tmp'']"
  by (simp add: run_defs two_files_def dst_world_def plain_env_def record_call_def)

subsection \<open>Directories of the destination\<close>

lemma grows_dirs_refl [simp]: "grows_dirs fs fs"
  by (simp add: grows_dirs_def)

lemma grows_dirs_trans: "grows_dirs a b \<Longrightarrow> grows_dirs b c \<Longrightarrow> grows_dirs a c"
  unfolding grows_dirs_def by metis

lemma grows_dirs_upd: "fs p = None \<Longrightarrow> grows_dirs fs (fs(p \<mapsto> Dir))"
  by (simp add: grows_dirs_def)

lemma os_mkdir_Inr:
  "os_mkdir env fs p = Inr fs' \<Longrightarrow> fs p = None \<and> fs' = fs(p \<mapsto> Dir)"
  by (auto simp: os_mkdir_def split: if_splits option.splits entry.splits)

lemma mkdir_exist_ok_grows: "mkdir_exist_ok env fs p = (r, fs') \<Longrightarrow> grows_dirs fs fs'"
  by (auto simp: mkdir_exist_ok_def split: sum.splits if_splits dest!: os_mkdir_Inr intro: grows_dirs_upd)

lemma mkdir_exist_ok_is_dir: "mkdir_exist_ok env fs p = (None, fs') \<Longrightarrow> is_dir fs' p"
  by (auto simp: mkdir_exist_ok_def is_dir_def split: sum.splits if_splits dest!: os_mkdir_Inr)

lemma mkdir_parents_grows: "mkdir_parents env fs p = (r, fs') \<Longrightarrow> grows_dirs fs fs'"
proof (induction env fs p arbitrary: r fs' rule: mkdir_parents.induct)
  case (1 env fs p)
  show ?case
  proof (cases "os_mkdir env fs p")
    case (Inr fs1)
    with "1.prems" have "fs' = fs1"
      by (simp add: mkdir_parents.simps [of env fs p])
    with os_mkdir_Inr [OF Inr] show ?thesis
      using grows_dirs_upd by metis
  next
    case (Inl e)
    show ?thesis
    proof (cases "e = FileNotFoundError \<and> p \<noteq> []")
      case False
      with Inl "1.prems" show ?thesis
        by (auto simp: mkdir_parents.simps [of env fs p] split: if_splits)
    next
      case True
      obtain r1 fs1 where par: "mkdir_parents env fs (butlast p) = (r1, fs1)"
        by (cases "mkdir_parents env fs (butlast p)")
      from "1.IH" [OF Inl _ _ par] True have g1: "grows_dirs fs fs1" by simp
      show ?thesis
      proof (cases r1)
        case (Some e')
        with Inl True par "1.prems" g1 show ?thesis
          by (simp add: mkdir_parents.simps [of env fs p])
      next
        case None
        with Inl True par "1.prems" have "mkdir_exist_ok env fs1 p = (r, fs')"
          by (simp add: mkdir_parents.simps [of env fs p])
        then have "grows_dirs fs1 fs'" by (rule mkdir_exist_ok_grows)
        with g1 show ?thesis by (rule grows_dirs_trans)
      qed
    qed
  qed
qed

lemma mkdir_parents_is_dir: "mkdir_parents env fs p = (None, fs') \<Longrightarrow> is_dir fs' p"
  by (auto simp: mkdir_parents.simps [of env fs p] is_dir_def
      split: sum.splits if_splits prod.splits option.splits
      dest!: os_mkdir_Inr mkdir_exist_ok_is_dir)

lemma grows_dirs_is_dir: "grows_dirs fs fs' \<Longrightarrow> is_dir fs q \<Longrightarrow> is_dir fs' q"
  unfolding grows_dirs_def is_dir_def by (metis option.distinct(1))

lemma mkdirs_grows: "mkdirs env fs base ds = (r, fs') \<Longrightarrow> grows_dirs fs fs'"
proof (induction ds arbitrary: fs)
  case Nil
  then show ?case by simp
next
  case (Cons d ds)
  obtain r1 fs1 where m: "mkdir_parents env fs (base @ [d]) = (r1, fs1)"
    by (cases "mkdir_parents env fs (base @ [d])")
  have g1: "grows_dirs fs fs1" using m by (rule mkdir_parents_grows)
  show ?case
  proof (cases r1)
    case None
    with Cons.prems m have "mkdirs env fs1 base ds = (r, fs')" by simp
    then have "grows_dirs fs1 fs'" by (rule Cons.IH)
    with g1 show ?thesis by (rule grows_dirs_trans)
  next
    case (Some e)
    with Cons.prems m g1 show ?thesis by simp
  qed
qed

lemma mkdirs_is_dir:
  "mkdirs env fs base ds = (None, fs') \<Longrightarrow> d \<in> set ds \<Longrightarrow> is_dir fs' (base @ [d])"
proof (induction ds arbitrary: fs)
  case Nil
  then show ?case by simp
next
  case (Cons x ds)
  obtain r1 fs1 where m: "mkdir_parents env fs (base @ [x]) = (r1, fs1)"
    by (cases "mkdir_parents env fs (base @ [x])")
  with Cons.prems have r1: "r1 = None" and rest: "mkdirs env fs1 base ds = (None, fs')"
    by (auto split: option.splits)
  show ?case
  proof (cases "d = x")
    case True
    from m r1 have "is_dir fs1 (base @ [x])" by (simp add: mkdir_parents_is_dir)
    with rest True show ?thesis
      using grows_dirs_is_dir mkdirs_grows by blast
  next
    case False
    with Cons.prems have "d \<in> set ds" by simp
    with rest show ?thesis by (rule Cons.IH)
  qed
qed

lemma dirs_kept_refl [simp]: "dirs_kept fs fs"
  by (simp add: dirs_kept_def)

lemma dirs_kept_trans: "dirs_kept a b \<Longrightarrow> dirs_kept b c \<Longrightarrow> dirs_kept a c"
  by (simp add: dirs_kept_def)

lemma grows_dirs_kept: "grows_dirs fs fs' \<Longrightarrow> dirs_kept fs fs'"
  by (simp add: dirs_kept_def grows_dirs_is_dir)

lemma copy2_dirs: "copy2 env fs src s dst = (r, fs') \<Longrightarrow> is_dir fs' q = is_dir fs q"
  by (auto simp: copy2_def Let_def is_dir_def
      split: if_splits option.splits entry.splits prod.splits)

lemma copy_file_dirs:
  "copy_file str_lower env sd dr ign cb n fe (c, w) = (c', w') \<Longrightarrow> is_dir (disk w') q = is_dir (disk w) q"
  by (cases fe)
     (auto simp: copy_file_def emit_def Let_def copy2_dirs
       split: if_splits option.splits prod.splits)

lemma copy_files_dirs:
  "copy_files str_lower env sd dr ign cb n files cw = cw'
    \<Longrightarrow> is_dir (disk (snd cw')) q = is_dir (disk (snd cw)) q"
proof (induction files arbitrary: cw)
  case Nil
  then show ?case by simp
next
  case (Cons fe files)
  obtain c w where cw: "cw = (c, w)" by (cases cw)
  obtain c1 w1 where st: "copy_file str_lower env sd dr ign cb n fe (c, w) = (c1, w1)"
    by (cases "copy_file str_lower env sd dr ign cb n fe (c, w)")
  from Cons.prems cw st have "copy_files str_lower env sd dr ign cb n files (c1, w1) = cw'" by simp
  from Cons.IH [OF this] copy_file_dirs [OF st] cw show ?case by simp
qed

lemma visit_dirs_kept:
  assumes "visit str_lower env src dst ign cb n item cw = (r, cw')"
  shows "dirs_kept (disk (snd cw)) (disk (snd cw'))"
proof -
  obtain rel dirs files where item: "item = (rel, dirs, files)" by (cases item)
  obtain c w where cw: "cw = (c, w)" by (cases cw)
  obtain r1 fs1 where m: "mkdirs env (disk w) (dst @ rel) dirs = (r1, fs1)"
    by (cases "mkdirs env (disk w) (dst @ rel) dirs")
  have g: "dirs_kept (disk w) fs1" using m by (simp add: grows_dirs_kept mkdirs_grows)
  show ?thesis
  proof (cases r1)
    case (Some e)
    with assms item cw m g show ?thesis by (auto simp: visit_def)
  next
    case None
    with assms item cw m
    have "cw' = copy_files str_lower env (src @ rel) (dst @ rel) ign cb n files (c, w\<lparr>disk := fs1\<rparr>)"
      by (auto simp: visit_def)
    then have "\<And>q. is_dir (disk (snd cw')) q = is_dir fs1 q"
      using copy_files_dirs [of str_lower env "src @ rel" "dst @ rel" ign cb n files "(c, w\<lparr>disk := fs1\<rparr>)" cw']
      by simp
    with g cw show ?thesis by (simp add: dirs_kept_def)
  qed
qed

lemma visit_makes_dirs:
  assumes "visit str_lower env src dst ign cb n (rel, dirs, files) (c, w) = (None, cw')"
  shows "\<exists>fs1. mkdirs env (disk w) (dst @ rel) dirs = (None, fs1)
           \<and> (\<forall>d \<in> set dirs. is_dir fs1 (dst @ rel @ [d]))
           \<and> cw' = copy_files str_lower env (src @ rel) (dst @ rel) ign cb n files (c, w\<lparr>disk := fs1\<rparr>)
           \<and> (\<forall>d \<in> set dirs. is_dir (disk (snd cw')) (dst @ rel @ [d]))"
proof -
  obtain r1 fs1 where m: "mkdirs env (disk w) (dst @ rel) dirs = (r1, fs1)"
    by (cases "mkdirs env (disk w) (dst @ rel) dirs")
  with assms have r1: "r1 = None"
    and cw': "cw' = copy_files str_lower env (src @ rel) (dst @ rel) ign cb n files (c, w\<lparr>disk := fs1\<rparr>)"
    by (auto simp: visit_def split: option.splits)
  have d1: "\<forall>d \<in> set dirs. is_dir fs1 (dst @ rel @ [d])"
    using mkdirs_is_dir [of env "disk w" "dst @ rel" dirs fs1] m r1 by simp
  have "\<And>q. is_dir (disk (snd cw')) q = is_dir fs1 q"
    using copy_files_dirs [of str_lower env "src @ rel" "dst @ rel" ign cb n files "(c, w\<lparr>disk := fs1\<rparr>)" cw'] cw'
    by simp
  with d1 m r1 cw' show ?thesis by simp
qed

lemma visit_all_dirs_kept:
  "visit_all str_lower env src dst ign cb n items cw = (r, cw')
    \<Longrightarrow> dirs_kept (disk (snd cw)) (disk (snd cw'))"
proof (induction items arbitrary: cw)
  case Nil
  then show ?case by simp
next
  case (Cons item items)
  obtain r1 cw1 where v: "visit str_lower env src dst ign cb n item cw = (r1, cw1)"
    by (cases "visit str_lower env src dst ign cb n item cw")
  have k1: "dirs_kept (disk (snd cw)) (disk (snd cw1))" using v by (rule visit_dirs_kept)
  show ?case
  proof (cases r1)
    case (Some e)
    with Cons.prems v k1 show ?thesis by auto
  next
    case None
    with Cons.prems v have "visit_all str_lower env src dst ign cb n items cw1 = (r, cw')" by simp
    from Cons.IH [OF this] k1 show ?thesis by (rule dirs_kept_trans [rotated])
  qed
qed

lemma visit_all_makes_dirs:
  "visit_all str_lower env src dst ign cb n items cw = (None, cw')
    \<Longrightarrow> (rel, dirs, files) \<in> set items \<Longrightarrow> d \<in> set dirs
    \<Longrightarrow> is_dir (disk (snd cw')) (dst @ rel @ [d])"
proof (induction items arbitrary: cw)
  case Nil
  then show ?case by simp
next
  case (Cons item items)
  obtain r1 cw1 where v: "visit str_lower env src dst ign cb n item cw = (r1, cw1)"
    by (cases "visit str_lower env src dst ign cb n item cw")
  with Cons.prems(1) have r1: "r1 = None"
    and rest: "visit_all str_lower env src dst ign cb n items cw1 = (None, cw')"
    by (auto split: option.splits)
  show ?case
  proof (cases "(rel, dirs, files) = item")
    case True
    obtain c w where cw: "cw = (c, w)" by (cases cw)
    from visit_makes_dirs [of str_lower env src dst ign cb n rel dirs files c w cw1] v r1 True cw Cons.prems(3)
    have "is_dir (disk (snd cw1)) (dst @ rel @ [d])" by blast
    with visit_all_dirs_kept [OF rest] show ?thesis by (simp add: dirs_kept_def)
  next
    case False
    with Cons.prems(2) have "(rel, dirs, files) \<in> set items" by auto
    from Cons.IH [OF rest this Cons.prems(3)] show ?thesis .
  qed
qed




subsection \<open>The loop over the destinations\<close>

lemma copy_file_verdicts:
  "copy_file str_lower env sd dr ign cb n fe (c, w) = (c', w')
    \<Longrightarrow> filter verdict (trace w') = filter verdict (trace w)"
  by (cases fe)
     (auto simp: copy_file_def emit_def Let_def split: if_splits option.splits prod.splits)

lemma copy_files_verdicts:
  "copy_files str_lower env sd dr ign cb n files cw = cw'
    \<Longrightarrow> filter verdict (trace (snd cw')) = filter verdict (trace (snd cw))"
proof (induction files arbitrary: cw)
  case Nil
  then show ?case by simp
next
  case (Cons fe files)
  obtain c w where cw: "cw = (c, w)" by (cases cw)
  obtain c1 w1 where st: "copy_file str_lower env sd dr ign cb n fe (c, w) = (c1, w1)"
    by (cases "copy_file str_lower env sd dr ign cb n fe (c, w)")
  from Cons.prems cw st have "copy_files str_lower env sd dr ign cb n files (c1, w1) = cw'" by simp
  from Cons.IH [OF this] copy_file_verdicts [OF st] cw show ?case by simp
qed

lemma visit_verdicts:
  assumes "visit str_lower env src dst ign cb n item cw = (r, cw')"
  shows "filter verdict (trace (snd cw')) = filter verdict (trace (snd cw))"
proof -
  obtain rel dirs files where item: "item = (rel, dirs, files)" by (cases item)
  obtain c w where cw: "cw = (c, w)" by (cases cw)
  obtain r1 fs1 where m: "mkdirs env (disk w) (dst @ rel) dirs = (r1, fs1)"
    by (cases "mkdirs env (disk w) (dst @ rel) dirs")
  show ?thesis
  proof (cases r1)
    case (Some e)
    with assms item cw m show ?thesis by (auto simp: visit_def)
  next
    case None
    with assms item cw m
    have "cw' = copy_files str_lower env (src @ rel) (dst @ rel) ign cb n files (c, w\<lparr>disk := fs1\<rparr>)"
      by (auto simp: visit_def)
    from copy_files_verdicts [OF this [symmetric]] cw show ?thesis by simp
  qed
qed

lemma visit_all_verdicts:
  "visit_all str_lower env src dst ign cb n items cw = (r, cw')
    \<Longrightarrow> filter verdict (trace (snd cw')) = filter verdict (trace (snd cw))"
proof (induction items arbitrary: cw)
  case Nil
  then show ?case by simp
next
  case (Cons item items)
  obtain r1 cw1 where v: "visit str_lower env src dst ign cb n item cw = (r1, cw1)"
    by (cases "visit str_lower env src dst ign cb n item cw")
  note k1 = visit_verdicts [OF v]
  show ?case
  proof (cases r1)
    case (Some e)
    with Cons.prems v k1 show ?thesis by auto
  next
    case None
    with Cons.prems v have "visit_all str_lower env src dst ign cb n items cw1 = (r, cw')" by simp
    from Cons.IH [OF this] k1 show ?thesis by simp
  qed
qed

lemma copy_recursively_verdicts:
  "copy_recursively str_lower env src tree dst ign cb w = (r, w')
    \<Longrightarrow> filter verdict (trace w') = filter verdict (trace w)"
  by (auto simp: copy_recursively_def split: prod.splits dest!: visit_all_verdicts)

lemma ensure_path_mapped_verdicts:
  "ensure_path_mapped h p ht w = (b, w')
    \<Longrightarrow> filter verdict (trace w') = filter verdict (trace w)"
  by (auto simp: ensure_path_mapped_def emit_def Let_def
      split: if_splits option.splits prod.splits sum.splits)

lemma sync_one_verdicts:
  "length (filter verdict (trace (sync_one str_lower env h src tree ign sel w)))
    = Suc (length (filter verdict (trace w)))"
proof -
  obtain name dst ht where sel: "sel = (name, dst, ht)" by (cases sel)
  obtain b w1 where e: "ensure_path_mapped h dst ht w = (b, w1)"
    by (cases "ensure_path_mapped h dst ht w")
  note v1 = ensure_path_mapped_verdicts [OF e]
  show ?thesis
  proof (cases b)
    case False
    with sel e v1 show ?thesis by (simp add: sync_one_def emit_def)
  next
    case True
    let ?w2 = "emit (LogStarting name dst) (w1\<lparr>ui := ui w1 @ [SetZero]\<rparr>)"
    obtain r w3 where c: "copy_recursively str_lower env src tree dst (Some ign) (Some update_progress) ?w2
        = (r, w3)"
      by (cases "copy_recursively str_lower env src tree dst (Some ign) (Some update_progress) ?w2")
    from copy_recursively_verdicts [OF c] v1
    have "filter verdict (trace w3) = filter verdict (trace w)" by (simp add: emit_def)
    with sel e True c show ?thesis
      by (cases r) (simp_all add: sync_one_def emit_def Let_def)
  qed
qed

lemma sync_selected_append:
  "sync_selected str_lower env h src tree ign (xs @ ys) w
    = sync_selected str_lower env h src tree ign ys (sync_selected str_lower env h src tree ign xs w)"
  by (induction xs arbitrary: w) simp_all

lemma sync_selected_verdicts:
  "length (filter verdict (trace (sync_selected str_lower env h src tree ign selected w)))
    = length (filter verdict (trace w)) + length selected"
  by (induction selected arbitrary: w) (simp_all add: sync_one_verdicts)

lemmas sync_defs = start_copy_def sync_one_def ensure_path_mapped_def update_progress_def

lemma three_destinations_trace:
  "trace (start_copy ascii_lower plain_env windows_host (Some ([''src''], Some with_empty_dir)) [''.tmp'']
            three_selected clash_world)
   = [LogCannotAccess [''missing''], DlgMappingFailed [''missing''],
      LogStarting ''B'' [''dst''],
      LogErrorCopyingTo [''dst''] FileExistsError, DlgCopyFailed ''B'' FileExistsError,
      LogStarting ''C'' [''ok''],
      LogCopied [''src'', ''a.txt''] [''ok'', ''a.txt''],
      LogCompleted ''C'', DlgDone]"
  by (simp add: sync_defs run_defs with_empty_dir_def three_selected_def
      clash_world_def plain_env_def)

subsection \<open>A source that cannot be read\<close>

text \<open>
  C8 (as amended). When no source is chosen or the chosen path does not exist,
  \<open>start_copy\<close> reports the invalid source and returns, before any destination is
  looked at. A source root that exists and cannot be listed makes the walk empty: the
  total is 0, the copy run returns at once with the state unchanged, and a destination
  that can be reached is reported as completed.
\<close>

theorem unreadable_source_root:
  "start_copy str_lower env h None ign selected w = emit DlgSourceInvalid w
   \<and> start_copy str_lower env h (Some (src, None)) ign selected w = emit DlgSourceInvalid w
   \<and> count_total_files SDenied = 0
   \<and> copy_recursively str_lower env src SDenied dst ignx cb v = (None, v)
   \<and> (ensure_path_mapped h dst htype w = (True, w')
        \<longrightarrow> sync_one str_lower env h src SDenied ign (name, dst, htype) w
            = emit (LogCompleted name)
                (emit (LogStarting name dst) (w'\<lparr>ui := ui w' @ [SetZero]\<rparr>)))"
  by (simp add: start_copy_def copy_recursively_def count_total_files_def sync_one_def Let_def)

theorem unreadable_source_root_witness:
  "sync_one ascii_lower plain_env windows_host [''src''] SDenied [] (''A'', [''dst''], ''local'') bar_world
     = emit (LogCompleted ''A'')
         (emit (LogStarting ''A'' [''dst'']) (bar_world\<lparr>ui := ui bar_world @ [SetZero]\<rparr>))"
proof -
  have a: "ensure_path_mapped windows_host [''dst''] ''local'' bar_world = (True, bar_world)"
    by (simp add: ensure_path_mapped_def path_exists_def bar_world_def)
  from unreadable_source_root
    [where str_lower = ascii_lower and h = windows_host and dst = "[''dst'']"
       and htype = "''local''" and w = bar_world
       and w' = bar_world and env = plain_env and src = "[''src'']" and ign = "[]"
       and name = "''A''" and selected = "[]" and ignx = None and cb = None
       and v = bar_world] a
  show ?thesis by simp
qed

text \<open>
  The claim as stated fails for a source root that exists and cannot be listed: the run
  over a reachable destination logs its start and its completion, and no error.
\<close>

theorem unreadable_root_counterexample:
  "trace (start_copy ascii_lower plain_env windows_host (Some ([''src''], Some SDenied)) []
            [(''A'', [''dst''], ''local'')] bar_world)
   = [LogStarting ''A'' [''dst''], LogCompleted ''A'', DlgDone]"
  by (simp add: sync_defs run_defs bar_world_def)

subsection \<open>A destination base that does not exist\<close>

lemma walk_children_no_dirs: "dir_names es = [] \<Longrightarrow> walk_children rel es = []"
proof (induction es)
  case Nil
  then show ?case by simp
next
  case (Cons a es)
  obtain n c where a: "a = (n, c)" by (cases a)
  with Cons show ?case by (cases c) (auto split: if_splits)
qed

lemma copy_files_missing_base:
  assumes "disk w dst = None" and "\<forall>f. disk w (dst @ [f]) = None"
  shows "\<exists>c' w'. copy_files str_lower env src dst ign cb n files (c, w) = (c', w')
           \<and> disk w' = disk w
           \<and> trace w' = trace w @ missing_base_events str_lower env src dst ign files"
  using assms
proof (induction files arbitrary: c w)
  case Nil
  then show ?case by (simp add: missing_base_events_def)
next
  case (Cons fe files)
  obtain f s where fe: "fe = (f, s)" by (cases fe)
  obtain c1 w1 where st: "copy_file str_lower env src dst ign cb n (f, s) (c, w) = (c1, w1)"
    by (cases "copy_file str_lower env src dst ign cb n (f, s) (c, w)")
  from Cons.prems have nf: "disk w (dst @ [f]) = None" by simp
  from st nf Cons.prems(1)
  have d1: "disk w1 = disk w"
    and t1: "trace w1 = trace w @ missing_base_events str_lower env src dst ign [(f, s)]"
    by (auto simp: copy_file_def copy2_def is_dir_def stat_of_def needs_copy_def emit_def Let_def
        missing_base_events_def split: if_splits option.splits)
  from Cons.IH [of w1 c1] d1 Cons.prems
  obtain c' w' where "copy_files str_lower env src dst ign cb n files (c1, w1) = (c', w')"
    and "disk w' = disk w1"
    and "trace w' = trace w1 @ missing_base_events str_lower env src dst ign files"
    by auto
  with fe st d1 t1 show ?case by (simp add: missing_base_events_def)
qed

lemma butlast_neq: "p \<noteq> [] \<Longrightarrow> butlast p \<noteq> p"
  by (metis length_butlast diff_less length_greater_0_conv less_numeral_extra(1) nat_neq_iff)

lemma mkdir_parents_parent:
  assumes "mkdir_parents env fs p = (None, fs')" and "fs p = None" and "p \<noteq> []"
  shows "is_dir fs' (butlast p)"
proof (cases "os_mkdir env fs p")
  case (Inr fs1)
  with assms(1) have "fs' = fs1" by (simp add: mkdir_parents.simps [of env fs p])
  moreover from Inr assms(3) have "fs (butlast p) = Some Dir" "fs1 = fs(p \<mapsto> Dir)"
    by (auto simp: os_mkdir_def split: if_splits option.splits entry.splits)
  ultimately show ?thesis using butlast_neq [OF assms(3)] by (simp add: is_dir_def)
next
  case (Inl e)
  show ?thesis
  proof (cases "e = FileNotFoundError")
    case False
    with Inl assms(1,2) show ?thesis
      by (simp add: mkdir_parents.simps [of env fs p] is_dir_def split: if_splits)
  next
    case True
    obtain r1 fs1 where par: "mkdir_parents env fs (butlast p) = (r1, fs1)"
      by (cases "mkdir_parents env fs (butlast p)")
    with Inl True assms(1,3) have r1: "r1 = None" and m: "mkdir_exist_ok env fs1 p = (None, fs')"
      by (auto simp: mkdir_parents.simps [of env fs p] split: option.splits)
    from par r1 have "is_dir fs1 (butlast p)" by (simp add: mkdir_parents_is_dir)
    with mkdir_exist_ok_grows [OF m] show ?thesis by (rule grows_dirs_is_dir)
  qed
qed

lemma mkdirs_first_parent:
  assumes "mkdirs env fs base (d # ds) = (None, fs')" and "fs (base @ [d]) = None"
  shows "is_dir fs' base"
proof -
  obtain r1 fs1 where m: "mkdir_parents env fs (base @ [d]) = (r1, fs1)"
    by (cases "mkdir_parents env fs (base @ [d])")
  with assms(1) have r1: "r1 = None" and rest: "mkdirs env fs1 base ds = (None, fs')"
    by (auto split: option.splits)
  from mkdir_parents_parent [of env fs "base @ [d]" fs1] m r1 assms(2)
  have "is_dir fs1 base" by simp
  with mkdirs_grows [OF rest] show ?thesis by (rule grows_dirs_is_dir)
qed

lemma copy_recursively_visit_all:
  "copy_recursively str_lower env src tree dst ign cb w = (r, w')
    \<Longrightarrow> \<exists>c'. visit_all str_lower env src dst ign cb (count_total_files tree) (walk [] tree) (0, w)
           = (r, c', w')"
  by (auto simp: copy_recursively_def Let_def split: prod.splits)

lemma copy_recursively_missing_base:
  assumes "\<not> path_exists (disk w) dst"
    and "\<forall>f. \<not> path_exists (disk w) (dst @ [f])"
    and nodirs: "dir_names es = []"
  shows "\<exists>w'. copy_recursively str_lower env src (SDir es) dst ign cb w = (None, w')
           \<and> disk w' = disk w
           \<and> \<not> path_exists (disk w') dst
           \<and> trace w' = trace w @ missing_base_events str_lower env src dst ign (file_entries es)"
proof -
  from assms have 1: "disk w dst = None" and 2: "\<forall>f. disk w (dst @ [f]) = None"
    by (simp_all add: path_exists_def)
  from copy_files_missing_base [OF 1 2, of str_lower env src ign cb "count_total_files (SDir es)"
      "file_entries es" 0]
  obtain c' w' where "copy_files str_lower env src dst ign cb (count_total_files (SDir es))
        (file_entries es) (0, w) = (c', w')"
    and "disk w' = disk w"
    and "trace w' = trace w @ missing_base_events str_lower env src dst ign (file_entries es)"
    by auto
  with nodirs 1 show ?thesis
    by (simp add: copy_recursively_def visit_def walk_children_no_dirs path_exists_def)
qed

lemma copy_recursively_makes_base:
  assumes "\<forall>f. \<not> path_exists (disk w) (dst @ [f])"
    and "dir_names es \<noteq> []"
    and "copy_recursively str_lower env src (SDir es) dst ign cb w = (None, v)"
  shows "is_dir (disk v) dst"
proof -
  let ?n = "count_total_files (SDir es)"
  from assms(2) obtain d ds where dirs: "dir_names es = d # ds" by (cases "dir_names es") auto
  from assms(3) copy_recursively_visit_all [of str_lower env src "SDir es" dst ign cb w None v]
  obtain c' where "visit_all str_lower env src dst ign cb ?n (walk [] (SDir es)) (0, w) = (None, c', v)"
    by blast
  then have va: "visit_all str_lower env src dst ign cb ?n
      (([], dir_names es, file_entries es) # walk_children [] es) (0, w) = (None, c', v)"
    by (simp only: walk.simps)
  obtain r1 cw1 where v1: "visit str_lower env src dst ign cb ?n ([], dir_names es, file_entries es) (0, w)
      = (r1, cw1)"
    by (cases "visit str_lower env src dst ign cb ?n ([], dir_names es, file_entries es) (0, w)")
  with va have r1: "r1 = None"
    and rest: "visit_all str_lower env src dst ign cb ?n (walk_children [] es) cw1 = (None, c', v)"
    by (auto split: option.splits)
  from visit_makes_dirs [of str_lower env src dst ign cb ?n "[]" "dir_names es" "file_entries es" 0 w cw1]
    v1 r1
  obtain fs1 where m: "mkdirs env (disk w) dst (dir_names es) = (None, fs1)"
    and cw1: "cw1 = copy_files str_lower env src dst ign cb ?n (file_entries es) (0, w\<lparr>disk := fs1\<rparr>)"
    by auto
  from assms(1) have "disk w (dst @ [d]) = None" by (simp add: path_exists_def)
  with m dirs have "is_dir fs1 dst" using mkdirs_first_parent by metis
  with copy_files_dirs [OF cw1 [symmetric], of dst] have "is_dir (disk (snd cw1)) dst" by simp
  with visit_all_dirs_kept [OF rest] show "is_dir (disk v) dst" by (simp add: dirs_kept_def)
qed

lemma sync_one_missing_base:
  assumes "ensure_path_mapped h dst htype u = (True, w)"
    and "\<not> path_exists (disk w) dst"
    and "\<forall>f. \<not> path_exists (disk w) (dst @ [f])"
    and "dir_names es = []"
  shows "\<exists>w'. sync_one str_lower env h src (SDir es) ign (name, dst, htype) u = emit (LogCompleted name) w'
           \<and> disk w' = disk w"
proof -
  let ?w2 = "emit (LogStarting name dst) (w\<lparr>ui := ui w @ [SetZero]\<rparr>)"
  have d: "disk ?w2 = disk w" by (simp add: emit_def)
  from assms(2,3) d have 1: "\<not> path_exists (disk ?w2) dst"
    and 2: "\<forall>f. \<not> path_exists (disk ?w2) (dst @ [f])"
    by simp_all
  from copy_recursively_missing_base [OF 1 2 assms(4), of str_lower env src "Some ign"
      "Some update_progress"]
  obtain w' where "copy_recursively str_lower env src (SDir es) dst (Some ign) (Some update_progress) ?w2
      = (None, w')" and "disk w' = disk ?w2"
    by blast
  with assms(1) d show ?thesis by (auto simp: sync_one_def Let_def)
qed

text \<open>
  C10 (as amended). Let the destination base not exist, with nothing below it. When the
  source root has no subdirectory, the run returns without an exception and leaves the
  file system as it was, so the base is still missing, and every file of the root that
  is not ignored is logged with the error of its failed copy; a destination that was
  taken to be reached is then reported as completed. When the source root has a
  subdirectory and the run returns, the base is a directory afterwards: making the
  subdirectory with \<open>parents=True\<close> has made it.
\<close>

theorem missing_base_not_created:
  "(\<not> path_exists (disk w) dst \<and> (\<forall>f. \<not> path_exists (disk w) (dst @ [f]))
      \<and> dir_names es = []
     \<longrightarrow> (\<exists>w'. copy_recursively str_lower env src (SDir es) dst ign cb w = (None, w')
            \<and> disk w' = disk w
            \<and> \<not> path_exists (disk w') dst
            \<and> trace w' = trace w @ missing_base_events str_lower env src dst ign (file_entries es)))
   \<and> (ensure_path_mapped h dst htype u = (True, u')
      \<and> \<not> path_exists (disk u') dst \<and> (\<forall>f. \<not> path_exists (disk u') (dst @ [f]))
      \<and> dir_names es = []
     \<longrightarrow> (\<exists>u''. sync_one str_lower env h src (SDir es) ignored (name, dst, htype) u
                   = emit (LogCompleted name) u''
            \<and> disk u'' = disk u'))
   \<and> ((\<forall>f. \<not> path_exists (disk w) (dst @ [f])) \<and> dir_names es \<noteq> []
      \<and> copy_recursively str_lower env src (SDir es) dst ign cb w = (None, v)
     \<longrightarrow> is_dir (disk v) dst)"
  using copy_recursively_missing_base [of w dst es str_lower env src ign cb]
    sync_one_missing_base [of h dst htype u u' es str_lower env src ignored name]
    copy_recursively_makes_base [of w dst es str_lower env src ign cb v]
  by blast

theorem missing_base_not_created_witness:
  "(\<exists>w'. copy_recursively ascii_lower plain_env [''src''] two_files [''dst''] (Some [''.tmp'']) None
            root_world = (None, w')
        \<and> disk w' = disk root_world
        \<and> \<not> path_exists (disk w') [''dst'']
        \<and> trace w' = trace root_world
             @ [LogErrorCopying [''src'', ''a.txt''] [''dst'', ''a.txt''] FileNotFoundError,
                LogSkippedIgnored ''b.tmp''])
   \<and> (\<exists>u''. sync_one ascii_lower plain_env windows_host [''src''] two_files [''.tmp'']
                (''A'', [''dst''], ''smb'') bare_world = emit (LogCompleted ''A'') u''
           \<and> \<not> path_exists (disk u'') [''dst''])
   \<and> is_dir (disk (snd (copy_recursively ascii_lower plain_env [''src''] with_empty_dir [''dst'']
                          (Some [''.tmp'']) None root_world))) [''dst'']"
proof -
  let ?es = "[(''a.txt'', SFile \<lparr>st_size = 10, st_mtime = 100\<rparr>),
              (''b.tmp'', SFile \<lparr>st_size = 5, st_mtime = 100\<rparr>)]"
  let ?ds = "[(''empty'', SDir []), (''a.txt'', SFile \<lparr>st_size = 10, st_mtime = 100\<rparr>)]"
  let ?run = "copy_recursively ascii_lower plain_env [''src''] with_empty_dir [''dst''] (Some [''.tmp''])
                None root_world"
  let ?m = "ensure_path_mapped windows_host [''dst''] ''smb'' bare_world"
  have 1: "\<not> path_exists (disk root_world) [''dst'']"
    and 2: "\<forall>f. \<not> path_exists (disk root_world) ([''dst''] @ [f])"
    by (simp_all add: path_exists_def root_world_def)
  have 3: "dir_names ?es = []" and 4: "dir_names ?ds \<noteq> []"
    by simp_all
  have "fst ?run = None"
    by (simp add: run_defs with_empty_dir_def root_world_def plain_env_def)
  then have 5: "copy_recursively ascii_lower plain_env [''src''] (SDir ?ds) [''dst''] (Some [''.tmp''])
                None root_world = (None, snd ?run)"
    by (metis prod.collapse with_empty_dir_def)
  have "fst ?m = True"
    by (simp add: ensure_path_mapped_def windows_host_def bare_world_def path_exists_def)
  then have 6: "?m = (True, snd ?m)" by (metis prod.collapse)
  have 7: "disk (snd ?m) = disk bare_world"
    by (simp add: ensure_path_mapped_def windows_host_def bare_world_def path_exists_def
        emit_def)
  have 8: "\<not> path_exists (disk (snd ?m)) [''dst'']"
    and 9: "\<forall>f. \<not> path_exists (disk (snd ?m)) ([''dst''] @ [f])"
    unfolding 7 by (simp_all add: path_exists_def bare_world_def)
  have 10: "missing_base_events ascii_lower plain_env [''src''] [''dst''] (Some [''.tmp'']) (file_entries ?es)
            = [LogErrorCopying [''src'', ''a.txt''] [''dst'', ''a.txt''] FileNotFoundError,
               LogSkippedIgnored ''b.tmp'']"
    by (simp add: missing_base_events_def plain_env_def endswith_def ascii_lower_def)
  note T = missing_base_not_created
    [where str_lower = ascii_lower and env = plain_env and src = "[''src'']" and dst = "[''dst'']"
       and ign = "Some [''.tmp'']" and cb = None and w = root_world]
  from T [where es = ?es, THEN conjunct1] 1 2 3 10
  have a: "\<exists>w'. copy_recursively ascii_lower plain_env [''src''] two_files [''dst''] (Some [''.tmp'']) None
            root_world = (None, w')
        \<and> disk w' = disk root_world
        \<and> \<not> path_exists (disk w') [''dst'']
        \<and> trace w' = trace root_world
             @ [LogErrorCopying [''src'', ''a.txt''] [''dst'', ''a.txt''] FileNotFoundError,
                LogSkippedIgnored ''b.tmp'']"
    by (simp add: two_files_def)
  from T [where es = ?es and h = windows_host and htype = "''smb''" and u = bare_world
       and u' = "snd ?m" and ignored = "[''.tmp'']" and name = "''A''",
       THEN conjunct2, THEN conjunct1] 3 6 8 9
  have b: "\<exists>u''. sync_one ascii_lower plain_env windows_host [''src''] two_files [''.tmp'']
                (''A'', [''dst''], ''smb'') bare_world = emit (LogCompleted ''A'') u''
           \<and> \<not> path_exists (disk u'') [''dst'']"
    by (auto simp: two_files_def)
  from T [where es = ?ds and v = "snd ?run", THEN conjunct2, THEN conjunct2] 2 4 5
  have c: "is_dir (disk (snd ?run)) [''dst'']" by blast
  from a b c show ?thesis by blast
qed

text \<open>
  The claim as stated fails for a source root with a subdirectory: the missing base is
  made on the way, and the copy of the top-level file succeeds.
\<close>

theorem base_created_counterexample:
  "\<not> path_exists (disk root_world) [''dst'']
   \<and> fst (copy_recursively ascii_lower plain_env [''src''] with_empty_dir [''dst''] None None root_world) = None
   \<and> is_dir (disk (snd (copy_recursively ascii_lower plain_env [''src''] with_empty_dir [''dst''] None None
                          root_world))) [''dst'']
   \<and> trace (snd (copy_recursively ascii_lower plain_env [''src''] with_empty_dir [''dst''] None None
                    root_world))
     = [LogCopied [''src'', ''a.txt''] [''dst'', ''a.txt'']]"
  by (simp add: run_defs with_empty_dir_def root_world_def plain_env_def)

subsection \<open>A second run\<close>

lemma mkdir_parents_existing: "is_dir fs p \<Longrightarrow> mkdir_parents env fs p = (None, fs)"
  by (simp add: mkdir_parents.simps [of env fs p] os_mkdir_def is_dir_def)

lemma mkdirs_existing:
  "\<forall>d \<in> set ds. is_dir fs (base @ [d]) \<Longrightarrow> mkdirs env fs base ds = (None, fs)"
  by (induction ds) (simp_all add: mkdir_parents_existing)

lemma copy_file_synced:
  assumes "\<not> is_ignored str_lower (fst fe) ign \<longrightarrow> good (disk w) (dr @ [fst fe]) (snd fe)"
  shows "\<exists>c' w'. copy_file str_lower env sd dr ign cb n fe (c, w) = (c', w')
           \<and> disk w' = disk w \<and> trace w' = trace w @ [skip_event str_lower sd ign fe]"
  using assms
  by (cases fe)
     (auto simp: copy_file_def good_def stat_of_def needs_copy_def emit_def skip_event_def
        Let_def split: option.splits)

lemma copy_files_synced:
  assumes "\<forall>fe \<in> set files. \<not> is_ignored str_lower (fst fe) ign \<longrightarrow> good (disk w) (dr @ [fst fe]) (snd fe)"
  shows "\<exists>c' w'. copy_files str_lower env sd dr ign cb n files (c, w) = (c', w')
           \<and> disk w' = disk w \<and> trace w' = trace w @ map (skip_event str_lower sd ign) files"
  using assms
proof (induction files arbitrary: c w)
  case Nil
  then show ?case by simp
next
  case (Cons fe files)
  from copy_file_synced [of str_lower fe ign w dr env sd cb n c] Cons.prems
  obtain c1 w1 where st: "copy_file str_lower env sd dr ign cb n fe (c, w) = (c1, w1)"
    and d1: "disk w1 = disk w" and t1: "trace w1 = trace w @ [skip_event str_lower sd ign fe]"
    by auto
  from Cons.IH [of w1 c1] d1 Cons.prems
  obtain c' w' where "copy_files str_lower env sd dr ign cb n files (c1, w1) = (c', w')"
    and "disk w' = disk w1"
    and "trace w' = trace w1 @ map (skip_event str_lower sd ign) files"
    by auto
  with st d1 t1 show ?case by simp
qed

lemma visit_synced:
  assumes "item_synced str_lower (disk w) dst ign item"
  shows "\<exists>c' w'. visit str_lower env src dst ign cb n item (c, w) = (None, c', w')
           \<and> disk w' = disk w \<and> trace w' = trace w @ item_skip_events str_lower src ign item"
proof -
  obtain rel dirs files where item: "item = (rel, dirs, files)" by (cases item)
  from assms item have m: "mkdirs env (disk w) (dst @ rel) dirs = (None, disk w)"
    by (simp add: mkdirs_existing)
  from assms item
  have "\<forall>fe \<in> set files. \<not> is_ignored str_lower (fst fe) ign
          \<longrightarrow> good (disk w) ((dst @ rel) @ [fst fe]) (snd fe)"
    by simp
  from copy_files_synced [OF this, of env "src @ rel" cb n c]
  obtain c' w' where "copy_files str_lower env (src @ rel) (dst @ rel) ign cb n files (c, w) = (c', w')"
    and "disk w' = disk w"
    and "trace w' = trace w @ map (skip_event str_lower (src @ rel) ign) files"
    by auto
  with item m show ?thesis by (simp add: visit_def)
qed

lemma visit_all_synced:
  assumes "\<forall>item \<in> set items. item_synced str_lower (disk w) dst ign item"
  shows "\<exists>c' w'. visit_all str_lower env src dst ign cb n items (c, w) = (None, c', w')
           \<and> disk w' = disk w \<and> trace w' = trace w @ skip_events str_lower src ign items"
  using assms
proof (induction items arbitrary: c w)
  case Nil
  then show ?case by (simp add: skip_events_def)
next
  case (Cons item items)
  from visit_synced [of str_lower w dst ign item env src cb n c] Cons.prems
  obtain c1 w1 where v: "visit str_lower env src dst ign cb n item (c, w) = (None, c1, w1)"
    and d1: "disk w1 = disk w" and t1: "trace w1 = trace w @ item_skip_events str_lower src ign item"
    by auto
  from Cons.IH [of w1 c1] d1 Cons.prems
  obtain c' w' where "visit_all str_lower env src dst ign cb n items (c1, w1) = (None, c', w')"
    and "disk w' = disk w1"
    and "trace w' = trace w1 @ skip_events str_lower src ign items"
    by auto
  with v d1 t1 show ?case by (simp add: skip_events_def)
qed

lemma errors_append [simp]: "errors (xs @ ys) = errors xs + errors ys"
  by (simp add: errors_def)

lemma copy_file_errors:
  "copy_file str_lower env sd dr ign cb n fe (c, w) = (c', w') \<Longrightarrow> errors (trace w) \<le> errors (trace w')"
  by (cases fe)
     (auto simp: copy_file_def emit_def Let_def split: if_splits option.splits prod.splits)

lemma copy_files_errors:
  "copy_files str_lower env sd dr ign cb n files cw = cw'
    \<Longrightarrow> errors (trace (snd cw)) \<le> errors (trace (snd cw'))"
proof (induction files arbitrary: cw)
  case Nil
  then show ?case by simp
next
  case (Cons fe files)
  obtain c w where cw: "cw = (c, w)" by (cases cw)
  obtain c1 w1 where st: "copy_file str_lower env sd dr ign cb n fe (c, w) = (c1, w1)"
    by (cases "copy_file str_lower env sd dr ign cb n fe (c, w)")
  from Cons.prems cw st have "copy_files str_lower env sd dr ign cb n files (c1, w1) = cw'" by simp
  from Cons.IH [OF this] copy_file_errors [OF st] cw show ?case by simp
qed

lemma visit_split:
  assumes "visit str_lower env src dst ign cb n (rel, dirs, files) (c, w) = (None, cw')"
  obtains fs1 where "mkdirs env (disk w) (dst @ rel) dirs = (None, fs1)"
    and "cw' = copy_files str_lower env (src @ rel) (dst @ rel) ign cb n files (c, w\<lparr>disk := fs1\<rparr>)"
  using visit_makes_dirs [OF assms] by blast

lemma visit_errors:
  assumes "visit str_lower env src dst ign cb n item cw = (None, cw')"
  shows "errors (trace (snd cw)) \<le> errors (trace (snd cw'))"
proof -
  obtain rel dirs files where item: "item = (rel, dirs, files)" by (cases item)
  obtain c w where cw: "cw = (c, w)" by (cases cw)
  from assms item cw obtain fs1
    where "cw' = copy_files str_lower env (src @ rel) (dst @ rel) ign cb n files (c, w\<lparr>disk := fs1\<rparr>)"
    by (auto elim: visit_split)
  from copy_files_errors [OF this [symmetric]] cw show ?thesis by simp
qed

lemma visit_all_errors:
  "visit_all str_lower env src dst ign cb n items cw = (None, cw')
    \<Longrightarrow> errors (trace (snd cw)) \<le> errors (trace (snd cw'))"
proof (induction items arbitrary: cw)
  case Nil
  then show ?case by simp
next
  case (Cons item items)
  obtain r1 cw1 where v: "visit str_lower env src dst ign cb n item cw = (r1, cw1)"
    by (cases "visit str_lower env src dst ign cb n item cw")
  with Cons.prems have r1: "r1 = None"
    and rest: "visit_all str_lower env src dst ign cb n items cw1 = (None, cw')"
    by (auto split: option.splits)
  from visit_errors [of str_lower env src dst ign cb n item cw cw1] v r1 Cons.IH [OF rest]
  show ?case by simp
qed

lemma files_are_identical_refl [simp]: "files_are_identical (Some s) (Some s)"
  by simp

lemma copy_file_good:
  assumes "copy_file str_lower env sd dr ign cb n fe (c, w) = (c', w')"
    and "\<not> is_ignored str_lower (fst fe) ign"
    and "errors (trace w') = errors (trace w)"
    and "\<not> is_dir (disk w) (dr @ [fst fe])"
  shows "good (disk w') (dr @ [fst fe]) (snd fe)"
proof -
  obtain f s where fe: "fe = (f, s)" by (cases fe)
  let ?p = "dr @ [f]"
  show ?thesis
  proof (cases "needs_copy (Some s) (stat_of env (disk w) ?p)")
    case False
    then obtain s' where "stat_of env (disk w) ?p = Some s'"
      and id: "files_are_identical (Some s) (Some s')"
      by (cases "stat_of env (disk w) ?p") (auto simp: needs_copy_def)
    with assms(4) fe have "disk w ?p = Some (File s')"
      by (auto simp: stat_of_def is_dir_def split: option.splits entry.splits)
    moreover from assms(1,2) fe False have "disk w' = disk w"
      by (auto simp: copy_file_def emit_def Let_def split: option.splits)
    ultimately show ?thesis using id fe by (auto simp: good_def)
  next
    case True
    obtain r fs' where c2: "copy2 env (disk w) (sd @ [f]) s ?p = (r, fs')"
      by (cases "copy2 env (disk w) (sd @ [f]) s ?p")
    show ?thesis
    proof (cases r)
      case (Some e)
      with assms(1,2) fe True c2
      have "trace w' = trace w @ [LogErrorCopying (sd @ [f]) ?p e]"
        by (auto simp: copy_file_def emit_def Let_def split: option.splits)
      with assms(3) show ?thesis by (simp add: errors_def)
    next
      case None
      with c2 assms(4) fe have "fs' = (disk w)(?p \<mapsto> File s)"
        by (auto simp: copy2_def Let_def split: if_splits option.splits entry.splits prod.splits)
      moreover from assms(1,2) fe True c2 None have "disk w' = fs'"
        by (auto simp: copy_file_def emit_def Let_def split: option.splits)
      ultimately show ?thesis using fe by (simp add: good_def)
    qed
  qed
qed

lemma copy_file_frame:
  assumes "copy_file str_lower env sd dr ign cb n fe (c, w) = (c', w')"
    and "is_ignored str_lower (fst fe) ign \<or> (\<not> is_dir (disk w) (dr @ [fst fe]) \<and> p \<noteq> dr @ [fst fe])"
  shows "disk w' p = disk w p"
  using assms
  by (cases fe)
     (auto simp: copy_file_def copy2_def emit_def Let_def
        split: if_splits option.splits entry.splits prod.splits)

lemma copy_files_frame:
  assumes "copy_files str_lower env sd dr ign cb n files (c, w) = (c', w')"
    and "\<forall>fe \<in> set files. \<not> is_ignored str_lower (fst fe) ign
           \<longrightarrow> \<not> is_dir (disk w) (dr @ [fst fe]) \<and> p \<noteq> dr @ [fst fe]"
  shows "disk w' p = disk w p"
  using assms
proof (induction files arbitrary: c w)
  case Nil
  then show ?case by simp
next
  case (Cons fe files)
  obtain c1 w1 where st: "copy_file str_lower env sd dr ign cb n fe (c, w) = (c1, w1)"
    by (cases "copy_file str_lower env sd dr ign cb n fe (c, w)")
  with Cons.prems(1) have rest: "copy_files str_lower env sd dr ign cb n files (c1, w1) = (c', w')"
    by simp
  from Cons.prems(2) have 1: "disk w1 p = disk w p"
    by (intro copy_file_frame [OF st]) auto
  from Cons.prems(2) copy_file_dirs [OF st]
  have "\<forall>fe \<in> set files. \<not> is_ignored str_lower (fst fe) ign
           \<longrightarrow> \<not> is_dir (disk w1) (dr @ [fst fe]) \<and> p \<noteq> dr @ [fst fe]"
    by simp
  from Cons.IH [OF rest this] 1 show ?case by simp
qed

lemma copy_files_good:
  assumes "copy_files str_lower env sd dr ign cb n files (c, w) = (c', w')"
    and "errors (trace w') = errors (trace w)"
    and "distinct (map fst (filter (\<lambda>fe. \<not> is_ignored str_lower (fst fe) ign) files))"
    and "\<forall>fe \<in> set files. \<not> is_ignored str_lower (fst fe) ign \<longrightarrow> \<not> is_dir (disk w) (dr @ [fst fe])"
  shows "\<forall>fe \<in> set files. \<not> is_ignored str_lower (fst fe) ign \<longrightarrow> good (disk w') (dr @ [fst fe]) (snd fe)"
  using assms
proof (induction files arbitrary: c w)
  case Nil
  then show ?case by simp
next
  case (Cons fe files)
  obtain c1 w1 where st: "copy_file str_lower env sd dr ign cb n fe (c, w) = (c1, w1)"
    by (cases "copy_file str_lower env sd dr ign cb n fe (c, w)")
  with Cons.prems(1) have rest: "copy_files str_lower env sd dr ign cb n files (c1, w1) = (c', w')"
    by simp
  from copy_file_errors [OF st] copy_files_errors [OF rest] Cons.prems(2)
  have e1: "errors (trace w1) = errors (trace w)" and e2: "errors (trace w') = errors (trace w1)"
    by simp_all
  from Cons.prems(4) copy_file_dirs [OF st]
  have nd: "\<forall>fe \<in> set files. \<not> is_ignored str_lower (fst fe) ign \<longrightarrow> \<not> is_dir (disk w1) (dr @ [fst fe])"
    by simp
  from Cons.prems(3)
  have dist: "distinct (map fst (filter (\<lambda>fe. \<not> is_ignored str_lower (fst fe) ign) files))"
    by (simp split: if_splits)
  note tail = Cons.IH [OF rest e2 dist nd]
  have head: "good (disk w') (dr @ [fst fe]) (snd fe)" if ni: "\<not> is_ignored str_lower (fst fe) ign"
  proof -
    from Cons.prems(4) ni have "\<not> is_dir (disk w) (dr @ [fst fe])" by simp
    from copy_file_good [OF st ni e1 this]
    have g1: "good (disk w1) (dr @ [fst fe]) (snd fe)" .
    from Cons.prems(3) ni
    have "fst fe \<notin> fst ` set (filter (\<lambda>fe. \<not> is_ignored str_lower (fst fe) ign) files)"
      by simp
    then have "\<forall>x \<in> set files. \<not> is_ignored str_lower (fst x) ign \<longrightarrow> dr @ [fst fe] \<noteq> dr @ [fst x]"
      by (auto simp: image_iff)
    with nd have "\<forall>x \<in> set files. \<not> is_ignored str_lower (fst x) ign
           \<longrightarrow> \<not> is_dir (disk w1) (dr @ [fst x]) \<and> dr @ [fst fe] \<noteq> dr @ [fst x]"
      by simp
    from copy_files_frame [OF rest this] g1 show ?thesis by (simp add: good_def)
  qed
  from head tail show ?case by simp
qed

lemma grows_dirs_file: "grows_dirs fs fs' \<Longrightarrow> fs q = Some (File x) \<Longrightarrow> fs' q = Some (File x)"
  unfolding grows_dirs_def by (metis option.distinct(1))

lemma visit_frame:
  assumes "visit str_lower env src dst ign cb n item (c, w) = (None, cw')"
    and "\<forall>p \<in> set (item_dst_files str_lower dst ign item). \<not> is_dir (disk (snd cw')) p"
    and "q \<notin> set (item_dst_files str_lower dst ign item)"
    and "disk w q = Some (File x)"
  shows "disk (snd cw') q = Some (File x)"
proof -
  obtain rel dirs files where item: "item = (rel, dirs, files)" by (cases item)
  from assms(1) item obtain fs1
    where m: "mkdirs env (disk w) (dst @ rel) dirs = (None, fs1)"
      and cw': "cw' = copy_files str_lower env (src @ rel) (dst @ rel) ign cb n files (c, w\<lparr>disk := fs1\<rparr>)"
    by (auto elim: visit_split)
  obtain c' w' where cw'': "cw' = (c', w')" by (cases cw')
  from mkdirs_grows [OF m] assms(4) have q1: "fs1 q = Some (File x)" by (rule grows_dirs_file)
  have dirs_eq: "\<And>p. is_dir (disk w') p = is_dir fs1 p"
    using copy_files_dirs [OF cw' [symmetric]] cw'' by simp
  have "\<forall>fe \<in> set files. \<not> is_ignored str_lower (fst fe) ign
          \<longrightarrow> \<not> is_dir (disk (w\<lparr>disk := fs1\<rparr>)) ((dst @ rel) @ [fst fe])
              \<and> q \<noteq> (dst @ rel) @ [fst fe]"
    using assms(2,3) item cw'' dirs_eq by auto
  moreover from cw' cw''
  have cf: "copy_files str_lower env (src @ rel) (dst @ rel) ign cb n files (c, w\<lparr>disk := fs1\<rparr>) = (c', w')"
    by simp
  ultimately have "disk w' q = disk (w\<lparr>disk := fs1\<rparr>) q"
    by (intro copy_files_frame [OF cf])
  with q1 cw'' show ?thesis by simp
qed

lemma visit_good:
  assumes "visit str_lower env src dst ign cb n (rel, dirs, files) (c, w) = (None, cw')"
    and "errors (trace (snd cw')) = errors (trace w)"
    and "distinct (item_dst_files str_lower dst ign (rel, dirs, files))"
    and "\<forall>p \<in> set (item_dst_files str_lower dst ign (rel, dirs, files)). \<not> is_dir (disk (snd cw')) p"
    and "fe \<in> set files" and "\<not> is_ignored str_lower (fst fe) ign"
  shows "good (disk (snd cw')) (dst @ rel @ [fst fe]) (snd fe)"
proof -
  from assms(1) obtain fs1
    where cw': "cw' = copy_files str_lower env (src @ rel) (dst @ rel) ign cb n files (c, w\<lparr>disk := fs1\<rparr>)"
    by (auto elim: visit_split)
  obtain c' w' where cw'': "cw' = (c', w')" by (cases cw')
  have dirs_eq: "\<And>p. is_dir (disk w') p = is_dir fs1 p"
    using copy_files_dirs [OF cw' [symmetric]] cw'' by simp
  have nd: "\<forall>fe \<in> set files. \<not> is_ignored str_lower (fst fe) ign
          \<longrightarrow> \<not> is_dir (disk (w\<lparr>disk := fs1\<rparr>)) ((dst @ rel) @ [fst fe])"
    using assms(4) cw'' dirs_eq by auto
  have "map (\<lambda>fe. dst @ rel @ [fst fe]) (filter (\<lambda>fe. \<not> is_ignored str_lower (fst fe) ign) files)
        = map (\<lambda>f. dst @ rel @ [f]) (map fst (filter (\<lambda>fe. \<not> is_ignored str_lower (fst fe) ign) files))"
    by simp
  with assms(3)
  have dist: "distinct (map fst (filter (\<lambda>fe. \<not> is_ignored str_lower (fst fe) ign) files))"
    by (simp only: item_dst_files.simps) (metis distinct_map)
  from assms(2) cw'' have e: "errors (trace w') = errors (trace (w\<lparr>disk := fs1\<rparr>))" by simp
  from cw' cw''
  have cf: "copy_files str_lower env (src @ rel) (dst @ rel) ign cb n files (c, w\<lparr>disk := fs1\<rparr>) = (c', w')"
    by simp
  from copy_files_good [OF cf e dist nd] assms(5,6)
  have "good (disk w') ((dst @ rel) @ [fst fe]) (snd fe)" by blast
  with cw'' show ?thesis by simp
qed

lemma visit_all_frame:
  assumes "visit_all str_lower env src dst ign cb n items cw = (None, cw')"
    and "\<forall>p \<in> set (dst_files str_lower dst ign items). \<not> is_dir (disk (snd cw')) p"
    and "q \<notin> set (dst_files str_lower dst ign items)"
    and "disk (snd cw) q = Some (File x)"
  shows "disk (snd cw') q = Some (File x)"
  using assms
proof (induction items arbitrary: cw)
  case Nil
  then show ?case by simp
next
  case (Cons item items)
  obtain c w where cw: "cw = (c, w)" by (cases cw)
  obtain r1 cw1 where v: "visit str_lower env src dst ign cb n item (c, w) = (r1, cw1)"
    by (cases "visit str_lower env src dst ign cb n item (c, w)")
  with Cons.prems(1) cw have r1: "r1 = None"
    and rest: "visit_all str_lower env src dst ign cb n items cw1 = (None, cw')"
    by (auto split: option.splits)
  from visit_all_dirs_kept [OF rest] Cons.prems(2)
  have nd1: "\<forall>p \<in> set (item_dst_files str_lower dst ign item). \<not> is_dir (disk (snd cw1)) p"
    by (auto simp: dst_files_def dirs_kept_def)
  from Cons.prems(3) have q1: "q \<notin> set (item_dst_files str_lower dst ign item)"
    and q2: "q \<notin> set (dst_files str_lower dst ign items)"
    by (simp_all add: dst_files_def)
  from Cons.prems(4) cw have "disk w q = Some (File x)" by simp
  from visit_frame [OF _ nd1 q1 this] v r1 have 1: "disk (snd cw1) q = Some (File x)" by simp
  from Cons.prems(2) have "\<forall>p \<in> set (dst_files str_lower dst ign items). \<not> is_dir (disk (snd cw')) p"
    by (simp add: dst_files_def)
  from Cons.IH [OF rest this q2 1] show ?case .
qed

lemma visit_all_good:
  assumes "visit_all str_lower env src dst ign cb n items cw = (None, cw')"
    and "errors (trace (snd cw')) = errors (trace (snd cw))"
    and "distinct (dst_files str_lower dst ign items)"
    and "\<forall>p \<in> set (dst_files str_lower dst ign items). \<not> is_dir (disk (snd cw')) p"
    and "(rel, dirs, files) \<in> set items"
    and "fe \<in> set files" and "\<not> is_ignored str_lower (fst fe) ign"
  shows "good (disk (snd cw')) (dst @ rel @ [fst fe]) (snd fe)"
  using assms(1-5)
proof (induction items arbitrary: cw)
  case Nil
  then show ?case by simp
next
  case (Cons item items)
  obtain c w where cw: "cw = (c, w)" by (cases cw)
  obtain r1 cw1 where v: "visit str_lower env src dst ign cb n item (c, w) = (r1, cw1)"
    by (cases "visit str_lower env src dst ign cb n item (c, w)")
  with Cons.prems(1) cw have r1: "r1 = None"
    and rest: "visit_all str_lower env src dst ign cb n items cw1 = (None, cw')"
    by (auto split: option.splits)
  from v r1 have v': "visit str_lower env src dst ign cb n item (c, w) = (None, cw1)" by simp
  from visit_errors [OF v'] visit_all_errors [OF rest] Cons.prems(2) cw
  have e1: "errors (trace (snd cw1)) = errors (trace w)"
    and e2: "errors (trace (snd cw')) = errors (trace (snd cw1))"
    by simp_all
  from Cons.prems(3) have d1: "distinct (item_dst_files str_lower dst ign item)"
    and d2: "distinct (dst_files str_lower dst ign items)"
    and d3: "set (item_dst_files str_lower dst ign item) \<inter> set (dst_files str_lower dst ign items) = {}"
    by (simp_all add: dst_files_def)
  from Cons.prems(4)
  have nd2: "\<forall>p \<in> set (dst_files str_lower dst ign items). \<not> is_dir (disk (snd cw')) p"
    by (simp add: dst_files_def)
  from visit_all_dirs_kept [OF rest] Cons.prems(4)
  have nd1: "\<forall>p \<in> set (item_dst_files str_lower dst ign item). \<not> is_dir (disk (snd cw1)) p"
    by (auto simp: dst_files_def dirs_kept_def)
  show ?case
  proof (cases "(rel, dirs, files) = item")
    case True
    let ?q = "dst @ rel @ [fst fe]"
    from visit_good [OF _ e1 _ _ assms(6,7), of env src dst cb n rel dirs c] v' True d1 nd1
    have "good (disk (snd cw1)) ?q (snd fe)" by simp
    then obtain s' where q1: "disk (snd cw1) ?q = Some (File s')"
      and id: "files_are_identical (Some (snd fe)) (Some s')"
      by (auto simp: good_def)
    from assms(6,7) True have "?q \<in> set (item_dst_files str_lower dst ign item)" by force
    with d3 have "?q \<notin> set (dst_files str_lower dst ign items)" by auto
    from visit_all_frame [OF rest nd2 this q1] id show ?thesis by (auto simp: good_def)
  next
    case False
    with Cons.prems(5) have "(rel, dirs, files) \<in> set items" by auto
    from Cons.IH [OF rest e2 d2 nd2 this] show ?thesis .
  qed
qed

lemma dst_files_append [simp]:
  "dst_files str_lower dst ign (xs @ ys) = dst_files str_lower dst ign xs @ dst_files str_lower dst ign ys"
  by (simp add: dst_files_def)

lemma dst_files_Cons [simp]:
  "dst_files str_lower dst ign (x # xs) = item_dst_files str_lower dst ign x @ dst_files str_lower dst ign xs"
  by (simp add: dst_files_def)

lemma dst_files_Nil [simp]: "dst_files str_lower dst ign [] = []"
  by (simp add: dst_files_def)

lemma file_entries_names: "fst ` set (file_entries es) \<subseteq> fst ` set es"
  by (induction es rule: file_entries.induct) auto

lemma file_entries_distinct: "distinct (map fst es) \<Longrightarrow> distinct (map fst (file_entries es))"
proof (induction es rule: file_entries.induct)
  case (2 n s es)
  then show ?case using file_entries_names [of es] by auto
qed simp_all

lemma walk_dst_files_below:
  "p \<in> set (dst_files str_lower dst ign (walk rel t)) \<Longrightarrow> \<exists>q. q \<noteq> [] \<and> p = dst @ rel @ q"
  "p \<in> set (dst_files str_lower dst ign (walk_children rel es))
    \<Longrightarrow> \<exists>n q. n \<in> fst ` set es \<and> q \<noteq> [] \<and> p = dst @ rel @ n # q"
proof (induction rel t and rel es arbitrary: p and p rule: walk_walk_children.induct)
  case (1 rel es)
  from "1.prems" consider
      (here) "p \<in> set (item_dst_files str_lower dst ign (rel, dir_names es, file_entries es))"
    | (below) "p \<in> set (dst_files str_lower dst ign (walk_children rel es))"
    by auto
  then show ?case
  proof cases
    case here
    then show ?thesis by auto
  next
    case below
    from "1.IH" [OF this] show ?thesis by blast
  qed
next
  case (5 rel n c es)
  from "5.prems" consider
      (first) "p \<in> set (dst_files str_lower dst ign (walk (rel @ [n]) c))"
    | (others) "p \<in> set (dst_files str_lower dst ign (walk_children rel es))"
    by auto
  then show ?case
  proof cases
    case first
    from "5.IH"(1) [OF this] obtain q where "q \<noteq> []" and "p = dst @ (rel @ [n]) @ q" by blast
    then show ?thesis by auto
  next
    case others
    from "5.IH"(2) [OF this] show ?thesis by auto
  qed
qed simp_all

lemma walk_dst_files_distinct:
  "wf_tree t \<Longrightarrow> distinct (dst_files str_lower dst ign (walk rel t))"
  "wf_children es \<Longrightarrow> distinct (map fst es) \<Longrightarrow> distinct (dst_files str_lower dst ign (walk_children rel es))"
proof (induction rel t and rel es rule: walk_walk_children.induct)
  case (1 rel es)
  from "1.prems" have names: "distinct (map fst es)" and wf: "wf_children es" by simp_all
  let ?keep = "filter (\<lambda>fe. \<not> is_ignored str_lower (fst fe) ign) (file_entries es)"
  have "distinct (map fst ?keep)"
    using file_entries_distinct [OF names] by (simp add: distinct_map_filter)
  then have "distinct (map (\<lambda>f. dst @ rel @ [f]) (map fst ?keep))"
    by (simp add: distinct_map inj_on_def)
  then have here: "distinct (item_dst_files str_lower dst ign (rel, dir_names es, file_entries es))"
    by (simp add: comp_def)
  have below: "distinct (dst_files str_lower dst ign (walk_children rel es))"
    using "1.IH" wf names by simp
  have apart: "set (item_dst_files str_lower dst ign (rel, dir_names es, file_entries es))
                 \<inter> set (dst_files str_lower dst ign (walk_children rel es)) = {}"
  proof (rule ccontr)
    assume "\<not> ?thesis"
    then obtain p where a: "p \<in> set (item_dst_files str_lower dst ign (rel, dir_names es, file_entries es))"
      and b: "p \<in> set (dst_files str_lower dst ign (walk_children rel es))"
      by auto
    from a obtain f where "p = dst @ rel @ [f]" by auto
    moreover from walk_dst_files_below(2) [OF b]
    obtain n q where "q \<noteq> []" and "p = dst @ rel @ n # q" by blast
    ultimately show False by simp
  qed
  from here below apart show ?case by simp
next
  case (5 rel n c es)
  from "5.prems" have wfc: "wf_tree c" and wfs: "wf_children es"
    and fresh: "n \<notin> fst ` set es" and names: "distinct (map fst es)"
    by simp_all
  have first: "distinct (dst_files str_lower dst ign (walk (rel @ [n]) c))"
    using "5.IH"(1) wfc by simp
  have others: "distinct (dst_files str_lower dst ign (walk_children rel es))"
    using "5.IH"(2) wfs names by simp
  have apart: "set (dst_files str_lower dst ign (walk (rel @ [n]) c))
                 \<inter> set (dst_files str_lower dst ign (walk_children rel es)) = {}"
  proof (rule ccontr)
    assume "\<not> ?thesis"
    then obtain p where a: "p \<in> set (dst_files str_lower dst ign (walk (rel @ [n]) c))"
      and b: "p \<in> set (dst_files str_lower dst ign (walk_children rel es))"
      by auto
    from walk_dst_files_below(1) [OF a] obtain q where "p = dst @ (rel @ [n]) @ q" by blast
    moreover from walk_dst_files_below(2) [OF b]
    obtain n' q' where "n' \<in> fst ` set es" and "p = dst @ rel @ n' # q'" by blast
    ultimately show False using fresh by auto
  qed
  from first others apart show ?case by simp
qed simp_all

lemma skip_events_are_skips: "list_all is_skip (skip_events str_lower src ign items)"
proof -
  have "list_all is_skip (item_skip_events str_lower src ign item)" for item
    by (cases item) (auto simp: list_all_iff skip_event_def)
  then show ?thesis by (induction items) (simp_all add: skip_events_def)
qed

text \<open>
  C5 (as amended). Let a first run over a well-formed source return without an
  exception and without logging a copy error, and let no destination path of a source
  file that is not ignored be a directory. Then a second run from the state the first
  one left, under any environment and callback, returns as well, leaves the file system
  as it is, and logs one skip per file and nothing else: no file is copied and no error
  is made.
\<close>

theorem second_run_copies_nothing:
  assumes "wf_tree tree"
    and "copy_recursively str_lower env src tree dst ign cb w = (None, w')"
    and "errors (trace w') = errors (trace w)"
    and "\<forall>p \<in> set (dst_files str_lower dst ign (walk [] tree)). \<not> is_dir (disk w') p"
  shows "\<exists>w''. copy_recursively str_lower env' src tree dst ign cb' w' = (None, w'')
           \<and> disk w'' = disk w'
           \<and> trace w'' = trace w' @ skip_events str_lower src ign (walk [] tree)
           \<and> list_all is_skip (skip_events str_lower src ign (walk [] tree))"
proof -
  let ?n = "count_total_files tree"
  let ?items = "walk [] tree"
  from copy_recursively_visit_all [OF assms(2)]
  obtain c' where va: "visit_all str_lower env src dst ign cb ?n ?items (0, w) = (None, c', w')" by blast
  have dist: "distinct (dst_files str_lower dst ign ?items)"
    using assms(1) by (rule walk_dst_files_distinct)
  have "item_synced str_lower (disk w') dst ign item" if "item \<in> set ?items" for item
  proof -
    obtain rel dirs files where item: "item = (rel, dirs, files)" by (cases item)
    have "is_dir (disk w') (dst @ rel @ [d])" if "d \<in> set dirs" for d
      using visit_all_makes_dirs [OF va _ that, of rel files] \<open>item \<in> set ?items\<close> item by simp
    moreover have "good (disk w') (dst @ rel @ [fst fe]) (snd fe)"
      if "fe \<in> set files" and "\<not> is_ignored str_lower (fst fe) ign" for fe
      using visit_all_good [OF va _ _ _ _ that, of rel dirs] assms(3,4) dist
        \<open>item \<in> set ?items\<close> item
      by simp
    ultimately show ?thesis using item by simp
  qed
  then have "\<forall>item \<in> set ?items. item_synced str_lower (disk w') dst ign item" by blast
  from visit_all_synced [OF this, of env' src cb' ?n 0]
  obtain c'' w'' where "visit_all str_lower env' src dst ign cb' ?n ?items (0, w') = (None, c'', w'')"
    and "disk w'' = disk w'"
    and "trace w'' = trace w' @ skip_events str_lower src ign ?items"
    by blast
  then show ?thesis
    by (simp add: copy_recursively_def skip_events_are_skips)
qed

lemma first_run:
  "copy_recursively ascii_lower plain_env [''src''] nested_source [''dst''] (Some [''.tmp''])
     (Some record_call) dst_world = (None, after_first_run)"
  by (simp add: run_defs nested_source_def dst_world_def plain_env_def record_call_def
      after_first_run_def)

theorem second_run_copies_nothing_witness:
  "\<exists>w''. copy_recursively ascii_lower plain_env [''src''] nested_source [''dst''] (Some [''.tmp''])
            (Some record_call) after_first_run = (None, w'')
        \<and> disk w'' = disk after_first_run
        \<and> trace w'' = trace after_first_run
             @ [LogSkippedIdentical [''src'', ''a.txt''], LogSkippedIgnored ''b.tmp'',
                LogSkippedIdentical [''src'', ''sub'', ''c.txt'']]"
proof -
  have 1: "wf_tree nested_source" by (simp add: nested_source_def)
  have 3: "errors (trace after_first_run) = errors (trace dst_world)"
    by (simp add: errors_def after_first_run_def dst_world_def)
  have 4: "\<forall>p \<in> set (dst_files ascii_lower [''dst''] (Some [''.tmp'']) (walk [] nested_source)).
             \<not> is_dir (disk after_first_run) p"
    by (simp add: nested_source_def after_first_run_def is_dir_def endswith_def ascii_lower_def)
  have 5: "skip_events ascii_lower [''src''] (Some [''.tmp'']) (walk [] nested_source)
           = [LogSkippedIdentical [''src'', ''a.txt''], LogSkippedIgnored ''b.tmp'',
              LogSkippedIdentical [''src'', ''sub'', ''c.txt'']]"
    by (simp add: skip_events_def skip_event_def nested_source_def endswith_def ascii_lower_def)
  from second_run_copies_nothing [OF 1 first_run 3 4, of plain_env "Some record_call"] 5
  show ?thesis by simp
qed

text \<open>
  The claim as stated fails when the destination holds a directory under the name of a
  source file: the first run copies the file without an error, and so does the second.
\<close>

theorem directory_in_the_way_counterexample:
  "fst (copy_recursively ascii_lower plain_env [''src''] one_file [''dst''] None (Some record_call)
          dir_in_the_way) = None
   \<and> trace (snd (copy_recursively ascii_lower plain_env [''src''] one_file [''dst''] None
                    (Some record_call) dir_in_the_way))
     = [LogCopied [''src'', ''a.txt''] [''dst'', ''a.txt'']]
   \<and> fst (copy_recursively ascii_lower plain_env [''src''] one_file [''dst''] None (Some record_call)
            (snd (copy_recursively ascii_lower plain_env [''src''] one_file [''dst''] None
                    (Some record_call) dir_in_the_way))) = None
   \<and> trace (snd (copy_recursively ascii_lower plain_env [''src''] one_file [''dst''] None
                    (Some record_call)
                    (snd (copy_recursively ascii_lower plain_env [''src''] one_file [''dst''] None
                            (Some record_call) dir_in_the_way))))
     = [LogCopied [''src'', ''a.txt''] [''dst'', ''a.txt''],
        LogCopied [''src'', ''a.txt''] [''dst'', ''a.txt'']]"
  by (simp add: run_defs one_file_def dir_in_the_way_def plain_env_def record_call_def)

subsection \<open>Failures confined to one destination\<close>

lemma copy_recursively_synced:
  assumes "wf_tree tree"
    and "copy_recursively str_lower env src tree dst ign cb w = (None, w')"
    and "errors (trace w') = errors (trace w)"
    and "\<forall>p \<in> set (dst_files str_lower dst ign (walk [] tree)). \<not> is_dir (disk w') p"
    and "item \<in> set (walk [] tree)"
  shows "item_synced str_lower (disk w') dst ign item"
proof -
  let ?n = "count_total_files tree"
  let ?items = "walk [] tree"
  from copy_recursively_visit_all [OF assms(2)]
  obtain c' where va: "visit_all str_lower env src dst ign cb ?n ?items (0, w) = (None, c', w')"
    by blast
  have dist: "distinct (dst_files str_lower dst ign ?items)"
    using assms(1) by (rule walk_dst_files_distinct)
  obtain rel dirs files where item: "item = (rel, dirs, files)" by (cases item)
  have "is_dir (disk w') (dst @ rel @ [d])" if "d \<in> set dirs" for d
    using visit_all_makes_dirs [OF va _ that, of rel files] assms(5) item by simp
  moreover have "good (disk w') (dst @ rel @ [fst fe]) (snd fe)"
    if "fe \<in> set files" and "\<not> is_ignored str_lower (fst fe) ign" for fe
    using visit_all_good [OF va _ _ _ _ that, of rel dirs] assms(3,4,5) dist item
    by simp
  ultimately show ?thesis using item by simp
qed

lemma sync_one_completed:
  assumes "ensure_path_mapped h dst htype w = (True, w')"
    and "copy_recursively str_lower env src tree dst (Some ign) (Some update_progress)
           (emit (LogStarting name dst) (w'\<lparr>ui := ui w' @ [SetZero]\<rparr>)) = (None, w'')"
  shows "sync_one str_lower env h src tree ign (name, dst, htype) w = emit (LogCompleted name) w''"
  using assms by (simp add: sync_one_def Let_def)

lemma sync_one_synced:
  assumes "ensure_path_mapped h dst htype w = (True, w')"
    and run: "copy_recursively str_lower env src tree dst (Some ign) (Some update_progress)
           (emit (LogStarting name dst) (w'\<lparr>ui := ui w' @ [SetZero]\<rparr>)) = (None, w'')"
    and "wf_tree tree"
    and "errors (trace w'') = errors (trace w')"
    and "\<forall>p \<in> set (dst_files str_lower dst (Some ign) (walk [] tree)). \<not> is_dir (disk w'') p"
    and "item \<in> set (walk [] tree)"
  shows "item_synced str_lower (disk (sync_one str_lower env h src tree ign (name, dst, htype) w))
           dst (Some ign) item"
proof -
  have "errors (trace w'')
        = errors (trace (emit (LogStarting name dst) (w'\<lparr>ui := ui w' @ [SetZero]\<rparr>)))"
    using assms(4) by (simp add: emit_def errors_def)
  from copy_recursively_synced [OF assms(3) run this assms(5,6)]
  have "item_synced str_lower (disk w'') dst (Some ign) item" .
  moreover have "disk (sync_one str_lower env h src tree ign (name, dst, htype) w) = disk w''"
    using sync_one_completed [OF assms(1) run] by (simp add: emit_def)
  ultimately show ?thesis by simp
qed

lemma start_copy_state:
  assumes "selected \<noteq> []"
  shows "trace (start_copy str_lower env h (Some (src, Some tree)) ign selected w)
            = trace (sync_selected str_lower env h src tree ign selected w) @ [DlgDone]"
    and "disk (start_copy str_lower env h (Some (src, Some tree)) ign selected w)
            = disk (sync_selected str_lower env h src tree ign selected w)"
  using assms by (simp_all add: start_copy_def emit_def Let_def)

text \<open>
  C6. The loop over the selected destinations never stops early: whatever happens at one
  destination, those after it are processed by the same loop from the state reached.
  A destination that cannot be reached adds its two error reports and nothing else; an
  exception of the copy run is caught and reported. A destination that is reached and
  whose copy run returns keeps the whole outcome of that run, whatever state the
  earlier destinations have left: every subdirectory listed in the source is a
  directory under it, and, when the source is well formed, the run logged no copy
  error and no directory stands in the place of a file, every file that is not ignored
  is in place under it as the classifier expects it. Every selected destination
  receives exactly one closing record, and a run over a non-empty selection ends with
  the final dialog on the file system that the loop has produced.
\<close>

theorem failure_isolation:
  "sync_selected str_lower env h src tree ign (before @ sel # after) w
     = sync_selected str_lower env h src tree ign after
         (sync_one str_lower env h src tree ign sel
            (sync_selected str_lower env h src tree ign before w))
   \<and> (ensure_path_mapped h dsta htypea wa = (False, wa')
        \<longrightarrow> sync_one str_lower env h src tree ign (namea, dsta, htypea) wa
            = emit (DlgMappingFailed dsta) (emit (LogCannotAccess dsta) wa'))
   \<and> (ensure_path_mapped h dstb htypeb wb = (True, wb')
        \<and> copy_recursively str_lower env src tree dstb (Some ign) (Some update_progress)
             (emit (LogStarting nameb dstb) (wb'\<lparr>ui := ui wb' @ [SetZero]\<rparr>)) = (Some e, wb'')
        \<longrightarrow> sync_one str_lower env h src tree ign (nameb, dstb, htypeb) wb
            = emit (DlgCopyFailed nameb e) (emit (LogErrorCopyingTo dstb e) wb''))
   \<and> (ensure_path_mapped h dstc htypec wc = (True, wc')
        \<and> copy_recursively str_lower env src tree dstc (Some ign) (Some update_progress)
             (emit (LogStarting namec dstc) (wc'\<lparr>ui := ui wc' @ [SetZero]\<rparr>)) = (None, wc'')
        \<longrightarrow> sync_one str_lower env h src tree ign (namec, dstc, htypec) wc
              = emit (LogCompleted namec) wc''
            \<and> (\<forall>item \<in> set (walk [] tree). \<forall>d \<in> set (fst (snd item)).
                  is_dir (disk (sync_one str_lower env h src tree ign (namec, dstc, htypec) wc))
                    (dstc @ fst item @ [d]))
            \<and> (wf_tree tree \<and> errors (trace wc'') = errors (trace wc')
                \<and> (\<forall>p \<in> set (dst_files str_lower dstc (Some ign) (walk [] tree)).
                      \<not> is_dir (disk wc'') p)
               \<longrightarrow> (\<forall>item \<in> set (walk [] tree).
                      item_synced str_lower
                        (disk (sync_one str_lower env h src tree ign (namec, dstc, htypec) wc))
                        dstc (Some ign) item)))
   \<and> length (filter verdict (trace (sync_selected str_lower env h src tree ign selected w)))
       = length (filter verdict (trace w)) + length selected
   \<and> (selected \<noteq> []
        \<longrightarrow> trace (start_copy str_lower env h (Some (src, Some tree)) ign selected w)
              = trace (sync_selected str_lower env h src tree ign selected w) @ [DlgDone]
            \<and> disk (start_copy str_lower env h (Some (src, Some tree)) ign selected w)
              = disk (sync_selected str_lower env h src tree ign selected w))"
proof (intro conjI impI ballI)
  show "sync_selected str_lower env h src tree ign (before @ sel # after) w
     = sync_selected str_lower env h src tree ign after
         (sync_one str_lower env h src tree ign sel
            (sync_selected str_lower env h src tree ign before w))"
    by (simp add: sync_selected_append)
next
  assume "ensure_path_mapped h dsta htypea wa = (False, wa')"
  then show "sync_one str_lower env h src tree ign (namea, dsta, htypea) wa
            = emit (DlgMappingFailed dsta) (emit (LogCannotAccess dsta) wa')"
    by (simp add: sync_one_def)
next
  assume "ensure_path_mapped h dstb htypeb wb = (True, wb')
        \<and> copy_recursively str_lower env src tree dstb (Some ign) (Some update_progress)
             (emit (LogStarting nameb dstb) (wb'\<lparr>ui := ui wb' @ [SetZero]\<rparr>)) = (Some e, wb'')"
  then show "sync_one str_lower env h src tree ign (nameb, dstb, htypeb) wb
            = emit (DlgCopyFailed nameb e) (emit (LogErrorCopyingTo dstb e) wb'')"
    by (simp add: sync_one_def Let_def)
next
  assume a: "ensure_path_mapped h dstc htypec wc = (True, wc')
        \<and> copy_recursively str_lower env src tree dstc (Some ign) (Some update_progress)
             (emit (LogStarting namec dstc) (wc'\<lparr>ui := ui wc' @ [SetZero]\<rparr>)) = (None, wc'')"
  then show "sync_one str_lower env h src tree ign (namec, dstc, htypec) wc
              = emit (LogCompleted namec) wc''"
    by (simp add: sync_one_completed)
next
  fix item d
  assume a: "ensure_path_mapped h dstc htypec wc = (True, wc')
        \<and> copy_recursively str_lower env src tree dstc (Some ign) (Some update_progress)
             (emit (LogStarting namec dstc) (wc'\<lparr>ui := ui wc' @ [SetZero]\<rparr>)) = (None, wc'')"
    and item: "item \<in> set (walk [] tree)" and d: "d \<in> set (fst (snd item))"
  from a have "disk (sync_one str_lower env h src tree ign (namec, dstc, htypec) wc) = disk wc''"
    by (simp add: sync_one_completed emit_def)
  moreover from a copy_recursively_visit_all
  obtain c' where va: "visit_all str_lower env src dstc (Some ign) (Some update_progress)
      (count_total_files tree) (walk [] tree)
      (0, emit (LogStarting namec dstc) (wc'\<lparr>ui := ui wc' @ [SetZero]\<rparr>)) = (None, c', wc'')"
    by blast
  obtain rel dirs files where i: "item = (rel, dirs, files)" by (cases item)
  from visit_all_makes_dirs [OF va, of rel dirs files d] item d i
  have "is_dir (disk wc'') (dstc @ rel @ [d])" by simp
  ultimately show "is_dir (disk (sync_one str_lower env h src tree ign (namec, dstc, htypec) wc))
                    (dstc @ fst item @ [d])"
    using i by simp
next
  fix item
  assume a: "ensure_path_mapped h dstc htypec wc = (True, wc')
        \<and> copy_recursively str_lower env src tree dstc (Some ign) (Some update_progress)
             (emit (LogStarting namec dstc) (wc'\<lparr>ui := ui wc' @ [SetZero]\<rparr>)) = (None, wc'')"
    and b: "wf_tree tree \<and> errors (trace wc'') = errors (trace wc')
                \<and> (\<forall>p \<in> set (dst_files str_lower dstc (Some ign) (walk [] tree)).
                      \<not> is_dir (disk wc'') p)"
    and item: "item \<in> set (walk [] tree)"
  from a b item show "item_synced str_lower
                        (disk (sync_one str_lower env h src tree ign (namec, dstc, htypec) wc))
                        dstc (Some ign) item"
    by (intro sync_one_synced [where w' = wc' and w'' = wc'']) simp_all
next
  show "length (filter verdict (trace (sync_selected str_lower env h src tree ign selected w)))
       = length (filter verdict (trace w)) + length selected"
    by (rule sync_selected_verdicts)
next
  assume "selected \<noteq> []"
  then show "trace (start_copy str_lower env h (Some (src, Some tree)) ign selected w)
              = trace (sync_selected str_lower env h src tree ign selected w) @ [DlgDone]"
    by (rule start_copy_state)
next
  assume "selected \<noteq> []"
  then show "disk (start_copy str_lower env h (Some (src, Some tree)) ign selected w)
              = disk (sync_selected str_lower env h src tree ign selected w)"
    by (rule start_copy_state)
qed

lemma two_failures:
  "sync_selected ascii_lower plain_env windows_host [''src''] with_empty_dir [''.tmp'']
     [(''A'', [''missing''], ''local''), (''B'', [''dst''], ''local'')] clash_world
   = after_two_failures"
  by (simp add: sync_defs run_defs with_empty_dir_def clash_world_def plain_env_def
      after_two_failures_def)

theorem failure_isolation_witness:
  "sync_one ascii_lower plain_env windows_host [''src''] with_empty_dir [''.tmp'']
      (''A'', [''missing''], ''local'') clash_world
     = emit (DlgMappingFailed [''missing'']) (emit (LogCannotAccess [''missing'']) clash_world)
   \<and> sync_one ascii_lower plain_env windows_host [''src''] with_empty_dir [''.tmp'']
        (''B'', [''dst''], ''local'') clash_world
     = emit (DlgCopyFailed ''B'' FileExistsError)
         (emit (LogErrorCopyingTo [''dst''] FileExistsError)
            (snd (copy_recursively ascii_lower plain_env [''src''] with_empty_dir [''dst'']
                    (Some [''.tmp'']) (Some update_progress)
                    (emit (LogStarting ''B'' [''dst''])
                       (clash_world\<lparr>ui := ui clash_world @ [SetZero]\<rparr>)))))
   \<and> length (filter verdict (trace (sync_selected ascii_lower plain_env windows_host [''src'']
         with_empty_dir [''.tmp''] three_selected clash_world))) = 3
   \<and> trace (start_copy ascii_lower plain_env windows_host (Some ([''src''], Some with_empty_dir))
              [''.tmp''] three_selected clash_world)
     = trace (sync_selected ascii_lower plain_env windows_host [''src''] with_empty_dir [''.tmp'']
                three_selected clash_world) @ [DlgDone]
   \<and> is_dir (disk (start_copy ascii_lower plain_env windows_host
                     (Some ([''src''], Some with_empty_dir)) [''.tmp''] three_selected clash_world))
        [''ok'', ''empty'']
   \<and> good (disk (start_copy ascii_lower plain_env windows_host
                   (Some ([''src''], Some with_empty_dir)) [''.tmp''] three_selected clash_world))
        [''ok'', ''a.txt''] \<lparr>st_size = 10, st_mtime = 100\<rparr>
   \<and> disk (start_copy ascii_lower plain_env windows_host
               (Some ([''src''], Some with_empty_dir)) [''.tmp''] three_selected clash_world)
        [''ok'', ''a.txt''] = Some (File \<lparr>st_size = 10, st_mtime = 100\<rparr>)"
proof -
  let ?A = "(''A'', [''missing''], ''local'')"
  let ?B = "(''B'', [''dst''], ''local'')"
  let ?C = "(''C'', [''ok''], ''local'')"
  let ?runB = "copy_recursively ascii_lower plain_env [''src''] with_empty_dir [''dst'']
                (Some [''.tmp'']) (Some update_progress)
                (emit (LogStarting ''B'' [''dst''])
                   (clash_world\<lparr>ui := ui clash_world @ [SetZero]\<rparr>))"
  let ?runC = "copy_recursively ascii_lower plain_env [''src''] with_empty_dir [''ok'']
                (Some [''.tmp'']) (Some update_progress)
                (emit (LogStarting ''C'' [''ok''])
                   (after_two_failures\<lparr>ui := ui after_two_failures @ [SetZero]\<rparr>))"
  let ?one = "sync_one ascii_lower plain_env windows_host [''src''] with_empty_dir [''.tmp'']"
  let ?all = "sync_selected ascii_lower plain_env windows_host [''src''] with_empty_dir [''.tmp'']"
  let ?start = "start_copy ascii_lower plain_env windows_host
                  (Some ([''src''], Some with_empty_dir)) [''.tmp''] three_selected clash_world"
  have a: "ensure_path_mapped windows_host [''missing''] ''local'' clash_world
            = (False, clash_world)"
    by (simp add: ensure_path_mapped_def path_exists_def clash_world_def)
  have b: "ensure_path_mapped windows_host [''dst''] ''local'' clash_world
            = (True, clash_world)"
    by (simp add: ensure_path_mapped_def path_exists_def clash_world_def)
  have "fst ?runB = Some FileExistsError"
    by (simp add: run_defs with_empty_dir_def clash_world_def plain_env_def)
  then have c: "?runB = (Some FileExistsError, snd ?runB)"
    by (metis prod.collapse)
  have d: "three_selected \<noteq> []" and sel: "three_selected = [?A, ?B] @ ?C # []"
    by (simp_all add: three_selected_def)
  have e: "trace clash_world = []" "length three_selected = 3"
    by (simp_all add: clash_world_def three_selected_def)
  have f: "ensure_path_mapped windows_host [''ok''] ''local'' after_two_failures
            = (True, after_two_failures)"
    by (simp add: ensure_path_mapped_def path_exists_def after_two_failures_def)
  have "fst ?runC = None"
    by (simp add: run_defs with_empty_dir_def after_two_failures_def plain_env_def)
  then have g: "?runC = (None, snd ?runC)"
    by (metis prod.collapse)
  have h: "wf_tree with_empty_dir" by (simp add: with_empty_dir_def)
  have i: "errors (trace (snd ?runC)) = errors (trace after_two_failures)"
    by (simp add: run_defs with_empty_dir_def after_two_failures_def plain_env_def errors_def
        update_progress_def)
  have j: "\<forall>p \<in> set (dst_files ascii_lower [''ok''] (Some [''.tmp'']) (walk [] with_empty_dir)).
             \<not> is_dir (disk (snd ?runC)) p"
    by (simp add: run_defs with_empty_dir_def after_two_failures_def plain_env_def
        update_progress_def)
  have k: "([], [''empty''], [(''a.txt'', \<lparr>st_size = 10, st_mtime = 100\<rparr>)])
            \<in> set (walk [] with_empty_dir)"
    by (simp add: with_empty_dir_def)
  have l: "\<not> is_ignored ascii_lower ''a.txt'' (Some [''.tmp''])"
    by (simp add: endswith_def ascii_lower_def)
  note T = failure_isolation
    [where str_lower = ascii_lower and env = plain_env and h = windows_host
       and src = "[''src'']" and tree = with_empty_dir and ign = "[''.tmp'']"
       and selected = three_selected and w = clash_world
       and before = "[?A, ?B]" and sel = ?C and after = "[]"
       and dsta = "[''missing'']" and htypea = "''local''" and wa = clash_world
       and wa' = clash_world and namea = "''A''"
       and dstb = "[''dst'']" and htypeb = "''local''" and wb = clash_world
       and wb' = clash_world and nameb = "''B''" and e = FileExistsError
       and wb'' = "snd ?runB"
       and dstc = "[''ok'']" and htypec = "''local''" and wc = after_two_failures
       and wc' = after_two_failures and namec = "''C''" and wc'' = "snd ?runC"]
  from T a have 1: "?one ?A clash_world
      = emit (DlgMappingFailed [''missing'']) (emit (LogCannotAccess [''missing'']) clash_world)"
    by blast
  from T b c have 2: "?one ?B clash_world
      = emit (DlgCopyFailed ''B'' FileExistsError)
          (emit (LogErrorCopyingTo [''dst''] FileExistsError) (snd ?runB))"
    by blast
  from T e have 3: "length (filter verdict (trace (?all three_selected clash_world))) = 3"
    by simp
  from T d have 4: "trace ?start = trace (?all three_selected clash_world) @ [DlgDone]"
    and 5: "disk ?start = disk (?all three_selected clash_world)"
    by blast+
  have "?all ([?A, ?B] @ ?C # []) clash_world
        = ?all [] (?one ?C (?all [?A, ?B] clash_world))"
    by (rule T [THEN conjunct1])
  then have 6: "?all three_selected clash_world = ?one ?C after_two_failures"
    unfolding sel two_failures by simp
  from T f g h i j
  have 7: "\<forall>item \<in> set (walk [] with_empty_dir).
             item_synced ascii_lower (disk (?one ?C after_two_failures)) [''ok'']
               (Some [''.tmp'']) item"
    by blast
  from 7 k have "item_synced ascii_lower (disk (?one ?C after_two_failures)) [''ok'']
      (Some [''.tmp'']) ([], [''empty''], [(''a.txt'', \<lparr>st_size = 10, st_mtime = 100\<rparr>)])"
    by blast
  with l 5 6 have 8: "is_dir (disk ?start) [''ok'', ''empty'']"
    and 9: "good (disk ?start) [''ok'', ''a.txt''] \<lparr>st_size = 10, st_mtime = 100\<rparr>"
    by simp_all
  have 10: "disk ?start [''ok'', ''a.txt''] = Some (File \<lparr>st_size = 10, st_mtime = 100\<rparr>)"
    by (simp add: sync_defs run_defs with_empty_dir_def three_selected_def
        clash_world_def plain_env_def)
  from 1 2 3 4 8 9 10 show ?thesis by blast
qed

end
